theory Spec2Isabelle
  imports Main "HOL-Library.Word"
begin

section \<open>Data model of Socket.c\<close>

text \<open>
  Pointers are addresses; the null pointer is address 0. A function pointer (the read
  callback) and the opaque callback state are addresses as well: the code only stores
  them, tests them against null and hands them back.
\<close>

type_synonym ptr = nat

abbreviation (input) NULL :: ptr where
  "NULL \<equiv> 0"

type_synonym SOCKET = "64 word"

definition INVALID_SOCKET :: SOCKET where
  "INVALID_SOCKET = - 1"

text \<open>
  Modelled from the spec: the struct SAL\_Socket is declared in Socket.h, which is not
  among the sources. The fields are the five that Socket.c reads and writes (the spec's
  Connection: handle, connected, lastError, callback, callbackState).
\<close>

record SAL_Socket =
  RawSocket :: SOCKET
  Connected :: bool
  LastError :: "32 word"
  ReadCallback :: ptr
  ReadCallbackState :: ptr

text \<open>
  What stops the program: a failed \<open>assert\<close> aborts the process, a read through a
  pointer that holds no SAL\_Socket is an invalid access, and so is a call through a null
  function pointer.
\<close>

datatype fault = AssertionFailed | InvalidPointer | NullCall

text \<open>The handle \<open>asyncWorker\<close>: no thread yet, a started thread, a joined thread.\<close>

datatype SAL_Thread = NoThread | Started | Joined

text \<open>
  The process state: the memory holding the SAL\_Socket structs, the statics
  \<open>asyncSocketList\<close>, \<open>asyncWorker\<close> and \<open>asyncWorkerRunning\<close> of Socket.c, and
  \<open>selectIterator\<close>, the worker thread's cursor into the list.
\<close>

record engine =
  memory :: "ptr \<Rightarrow> SAL_Socket option"
  asyncSocketList :: "ptr list"
  asyncWorker :: SAL_Thread
  asyncWorkerRunning :: bool
  selectIterator :: nat

section \<open>The collaborators that are not in Socket.c\<close>

text \<open>
  Modelled from the spec: AsyncLinkedList (Utilities/AsyncLinkedList.h) is not among the
  sources. It is the spec's Registration Set: an insertion-ordered collection of
  non-owning references, with append at the tail, removal of the first matching entry
  by identity, and one resumable cursor. The spec's "no-op if already present" is the
  guard of SAL\_Socket\_SetReadCallback; the list's own append is unconditional.
  Releasing the storage leaves no entry.
\<close>

definition AsyncLinkedList_Initialize :: "ptr list" where
  "AsyncLinkedList_Initialize = []"

definition AsyncLinkedList_Uninitialize :: "ptr list \<Rightarrow> ptr list" where
  "AsyncLinkedList_Uninitialize l = []"

definition AsyncLinkedList_Append :: "ptr list \<Rightarrow> ptr \<Rightarrow> ptr list" where
  "AsyncLinkedList_Append l x = l @ [x]"

definition AsyncLinkedList_Remove :: "ptr list \<Rightarrow> ptr \<Rightarrow> ptr list" where
  "AsyncLinkedList_Remove l x = remove1 x l"

definition AsyncLinkedList_BeginIterate :: nat where
  "AsyncLinkedList_BeginIterate = 0"

definition AsyncLinkedList_ResetIterator :: nat where
  "AsyncLinkedList_ResetIterator = 0"

text \<open>The next entry and the advanced cursor; null, and the cursor where it was, at the end.\<close>

definition AsyncLinkedList_IterateNext :: "ptr list \<Rightarrow> nat \<Rightarrow> ptr \<times> nat" where
  "AsyncLinkedList_IterateNext l c = (if c < length l then (l ! c, Suc c) else (NULL, c))"

text \<open>
  Modelled from the spec: SAL\_Thread\_Create and SAL\_Thread\_Join are declared in
  Thread.h, which is not among the sources. Creating starts the background task; the
  join of the running task returns when the task has exited. The value is the state of
  the task behind the handle, which a join of a handle with no running task cannot
  change; whether such a join returns at once or fails is not said anywhere and is not
  modelled.
\<close>

definition SAL_Thread_Create :: SAL_Thread where
  "SAL_Thread_Create = Started"

definition SAL_Thread_Join :: "SAL_Thread \<Rightarrow> SAL_Thread" where
  "SAL_Thread_Join t = (case t of Started \<Rightarrow> Joined | _ \<Rightarrow> t)"

text \<open>
  The descriptor set \<open>fd_set\<close> and the macro \<open>FD_SET\<close> come from the platform header
  (winsock2.h). The set is the array \<open>fd_array\<close> with its count \<open>fd_count\<close>, here
  a list; \<open>FD_SET\<close> adds a handle that is not yet in the set while there is room for it.
  Socket.c fixes the capacity \<open>FD_SETSIZE\<close> at 1024.
\<close>

definition FD_SETSIZE :: nat where
  "FD_SETSIZE = 1024"

definition FD_SET :: "SOCKET \<Rightarrow> SOCKET list \<Rightarrow> SOCKET list" where
  "FD_SET fd fds =
     (if fd \<in> set fds then fds
      else if length fds < FD_SETSIZE then fds @ [fd]
      else fds)"

text \<open>
  What the platform does during one cycle of the worker: \<open>select_leaves\<close> is the content
  of the descriptor set after \<open>select\<close> was given it, and \<open>recv_returns n\<close> is what the
  n-th \<open>recv\<close> call of the cycle returns, given the handle and the buffer size.
\<close>

record platform =
  select_leaves :: "SOCKET list \<Rightarrow> SOCKET list"
  recv_returns :: "nat \<Rightarrow> SOCKET \<Rightarrow> 32 word \<Rightarrow> 32 word"

text \<open>
  One call of a read callback by the worker: the list entry it was made for, the
  function called, and the three arguments (buffer, byte count, state).
\<close>

record delivery =
  invoked_on :: ptr
  invoked :: ptr
  arg_buffer :: ptr
  arg_length :: "32 word"
  arg_state :: ptr

section \<open>The functions of Socket.c\<close>

definition SAL_Socket_Init :: "SAL_Socket" where
  "SAL_Socket_Init =
     \<lparr>RawSocket = 0, Connected = False, LastError = 0,
      ReadCallback = NULL, ReadCallbackState = NULL\<rparr>"

text \<open>
  The new thread runs SAL\_Socket\_CallbackWorker\_Run, whose first statement takes the
  cursor with AsyncLinkedList\_BeginIterate.
\<close>

definition SAL_Socket_CallbackWorker_Initialize :: "engine \<Rightarrow> engine" where
  "SAL_Socket_CallbackWorker_Initialize s =
     s\<lparr>asyncSocketList := AsyncLinkedList_Initialize,
       asyncWorkerRunning := True,
       asyncWorker := SAL_Thread_Create,
       selectIterator := AsyncLinkedList_BeginIterate\<rparr>"

definition SAL_Socket_CallbackWorker_Shutdown :: "engine \<Rightarrow> engine" where
  "SAL_Socket_CallbackWorker_Shutdown s =
     s\<lparr>asyncWorkerRunning := False,
       asyncWorker := SAL_Thread_Join (asyncWorker s),
       asyncSocketList := AsyncLinkedList_Uninitialize (asyncSocketList s)\<rparr>"

definition SAL_Socket_SetReadCallback ::
    "engine \<Rightarrow> ptr \<Rightarrow> ptr \<Rightarrow> ptr \<Rightarrow> fault + engine" where
  "SAL_Socket_SetReadCallback s socket callback state =
     (if socket = NULL then Inl AssertionFailed
      else if callback = NULL then Inl AssertionFailed
      else if state = NULL then Inl AssertionFailed
      else
        let s1 = (if \<not> asyncWorkerRunning s
                  then (SAL_Socket_CallbackWorker_Initialize s)\<lparr>asyncWorkerRunning := True\<rparr>
                  else s)
        in case memory s1 socket of
             None \<Rightarrow> Inl InvalidPointer
           | Some sk \<Rightarrow>
               let s2 = (if ReadCallback sk = NULL
                         then s1\<lparr>asyncSocketList :=
                                   AsyncLinkedList_Append (asyncSocketList s1) socket\<rparr>
                         else s1)
               in Inr (s2\<lparr>memory := (memory s2)(socket \<mapsto>
                           sk\<lparr>ReadCallback := callback, ReadCallbackState := state\<rparr>)\<rparr>))"

definition SAL_Socket_UnsetSocketCallback :: "engine \<Rightarrow> ptr \<Rightarrow> fault + engine" where
  "SAL_Socket_UnsetSocketCallback s socket =
     (if socket = NULL then Inl AssertionFailed
      else case memory s socket of
             None \<Rightarrow> Inl InvalidPointer
           | Some sk \<Rightarrow>
               if ReadCallback sk \<noteq> NULL
               then Inr (s\<lparr>memory := (memory s)(socket \<mapsto>
                             sk\<lparr>ReadCallback := NULL, ReadCallbackState := NULL\<rparr>),
                           asyncSocketList :=
                             AsyncLinkedList_Remove (asyncSocketList s) socket\<rparr>)
               else Inr s)"

definition SAL_Socket_ClearCallbacks :: "engine \<Rightarrow> engine" where
  "SAL_Socket_ClearCallbacks s = SAL_Socket_CallbackWorker_Shutdown s"

text \<open>
  SAL\_Socket\_Read. The platform's \<open>recv\<close> is a parameter: from the raw handle and the
  buffer size to the int32 it returns, held as a 32-bit word and read signed.
  The cast to uint32 keeps the bits.
\<close>

definition SAL_Socket_Read ::
    "(SOCKET \<Rightarrow> 32 word \<Rightarrow> 32 word) \<Rightarrow> (ptr \<Rightarrow> SAL_Socket option) \<Rightarrow> ptr \<Rightarrow> ptr \<Rightarrow> 32 word
      \<Rightarrow> fault + 32 word" where
  "SAL_Socket_Read recv mem socket buffer bufferSize =
     (if buffer = NULL then Inl AssertionFailed
      else if socket = NULL then Inl AssertionFailed
      else case mem socket of
             None \<Rightarrow> Inl InvalidPointer
           | Some sk \<Rightarrow>
               let received = recv (RawSocket sk) bufferSize
               in if sint received \<le> 0 then Inr 0 else Inr received)"

text \<open>
  SAL\_Socket\_ConnectIP and SAL\_Socket\_Accept, as compiled for Windows (the build in which
  the worker has a body). The results of the platform's \<open>socket\<close>, \<open>connect\<close> and
  \<open>accept\<close>, and the address that \<open>Allocate\<close> returns, are parameters. Each returns the
  new socket's address, null on failure.
\<close>

definition SAL_Socket_ConnectIP :: "SOCKET \<Rightarrow> bool \<Rightarrow> ptr \<Rightarrow> engine \<Rightarrow> ptr \<times> engine" where
  "SAL_Socket_ConnectIP rawServer connect_error server s =
     (if rawServer = INVALID_SOCKET then (NULL, s)
      else if connect_error then (NULL, s)
      else (server, s\<lparr>memory := (memory s)(server \<mapsto>
                         SAL_Socket_Init\<lparr>Connected := True, RawSocket := rawServer\<rparr>)\<rparr>))"

definition SAL_Socket_Accept ::
    "(SOCKET \<Rightarrow> SOCKET) \<Rightarrow> ptr \<Rightarrow> engine \<Rightarrow> ptr \<Rightarrow> fault + ptr \<times> engine" where
  "SAL_Socket_Accept accept socket s listener =
     (case memory s listener of
        None \<Rightarrow> Inl InvalidPointer
      | Some l \<Rightarrow>
          let rawSocket = accept (RawSocket l)
          in if rawSocket \<noteq> INVALID_SOCKET
             then Inr (socket, s\<lparr>memory := (memory s)(socket \<mapsto>
                                  SAL_Socket_Init\<lparr>RawSocket := rawSocket, Connected := True\<rparr>)\<rparr>)
             else Inr (NULL, s))"

text \<open>SAL\_Socket\_Close, as compiled for Windows.\<close>

definition SAL_Socket_Close :: "engine \<Rightarrow> ptr \<Rightarrow> fault + engine" where
  "SAL_Socket_Close s socket =
     (if socket = NULL then Inl AssertionFailed
      else case SAL_Socket_UnsetSocketCallback s socket of
             Inl e \<Rightarrow> Inl e
           | Inr s1 \<Rightarrow>
               (case memory s1 socket of
                  None \<Rightarrow> Inl InvalidPointer
                | Some sk \<Rightarrow>
                    Inr (s1\<lparr>memory := (memory s1)(socket \<mapsto>
                              sk\<lparr>Connected := False, RawSocket := INVALID_SOCKET\<rparr>)\<rparr>)))"

section \<open>The worker\<close>

definition CALLBACK_BUFFER_SIZE :: "32 word" where
  "CALLBACK_BUFFER_SIZE = 1024"

text \<open>The address of the static array \<open>asyncSocketBuffer\<close>: some address that is not null.\<close>

definition asyncSocketBuffer :: ptr where
  "asyncSocketBuffer = 65536"

text \<open>
  The first loop of a cycle:
  \<^verbatim>\<open>for (i = 0; i < FD_SETSIZE && AsyncLinkedList_IterateNext(socket, selectIterator, SAL_Socket*); i++)\<close>
  \<^verbatim>\<open>    FD_SET((SOCKET)socket->RawSocket, &readSet);\<close>
  It returns the local \<open>socket\<close>, the cursor and the descriptor set. At \<open>i = FD_SETSIZE\<close>
  the iterator is not called, and \<open>socket\<close> keeps the last entry.
\<close>

function batch_loop ::
    "(ptr \<Rightarrow> SAL_Socket option) \<Rightarrow> ptr list \<Rightarrow> nat \<Rightarrow> ptr \<Rightarrow> nat \<Rightarrow> SOCKET list
      \<Rightarrow> fault + ptr \<times> nat \<times> SOCKET list" where
  "batch_loop mem l i socket it readSet =
     (if i < FD_SETSIZE then
        (case AsyncLinkedList_IterateNext l it of
           (socket', it') \<Rightarrow>
             if socket' \<noteq> NULL then
               (case mem socket' of
                  None \<Rightarrow> Inl InvalidPointer
                | Some sk \<Rightarrow> batch_loop mem l (Suc i) socket' it' (FD_SET (RawSocket sk) readSet))
             else Inr (socket', it', readSet))
      else Inr (socket, it, readSet))"
  by pat_completeness auto
termination
  by (relation "measure (\<lambda>(mem, l, i, socket, it, readSet). FD_SETSIZE - i)") auto

declare batch_loop.simps [simp del]

text \<open>
  The inner loop of the dispatch, for one readable handle \<open>fd\<close>: every entry of the list
  whose RawSocket is \<open>fd\<close> is read from and its callback is called. \<open>n\<close> counts the
  \<open>recv\<close> calls made so far in the cycle.
\<close>

fun dispatch_entries ::
    "platform \<Rightarrow> (ptr \<Rightarrow> SAL_Socket option) \<Rightarrow> SOCKET \<Rightarrow> ptr list \<Rightarrow> nat
      \<Rightarrow> fault + delivery list \<times> nat" where
  "dispatch_entries env mem fd [] n = Inr ([], n)"
| "dispatch_entries env mem fd (socketEntry # rest) n =
     (case mem socketEntry of
        None \<Rightarrow> Inl InvalidPointer
      | Some sk \<Rightarrow>
          if RawSocket sk = fd then
            (case SAL_Socket_Read (recv_returns env n) mem socketEntry
                    asyncSocketBuffer CALLBACK_BUFFER_SIZE of
               Inl e \<Rightarrow> Inl e
             | Inr bytesRead \<Rightarrow>
                 if ReadCallback sk = NULL then Inl NullCall
                 else (case dispatch_entries env mem fd rest (Suc n) of
                         Inl e \<Rightarrow> Inl e
                       | Inr (ds, n') \<Rightarrow>
                           Inr (\<lparr>invoked_on = socketEntry, invoked = ReadCallback sk,
                                 arg_buffer = asyncSocketBuffer, arg_length = bytesRead,
                                 arg_state = ReadCallbackState sk\<rparr> # ds, n')))
          else dispatch_entries env mem fd rest n)"

text \<open>The outer loop of the dispatch, over the handles that \<open>select\<close> left in the set.\<close>

fun dispatch ::
    "platform \<Rightarrow> (ptr \<Rightarrow> SAL_Socket option) \<Rightarrow> ptr list \<Rightarrow> SOCKET list \<Rightarrow> nat
      \<Rightarrow> fault + delivery list \<times> nat" where
  "dispatch env mem l [] n = Inr ([], n)"
| "dispatch env mem l (fd # fds) n =
     (case dispatch_entries env mem fd l n of
        Inl e \<Rightarrow> Inl e
      | Inr (ds, n') \<Rightarrow>
          (case dispatch env mem l fds n' of
             Inl e \<Rightarrow> Inl e
           | Inr (ds', n'') \<Rightarrow> Inr (ds @ ds', n'')))"

text \<open>
  One cycle of the loop of SAL\_Socket\_CallbackWorker\_Run: build the descriptor set,
  reset the cursor if the list was exhausted, \<open>select\<close>, dispatch. It returns the
  descriptor set that was built (the batch), the callback calls made, and the state.
  The local \<open>socket\<close> is always assigned by the first loop, since \<open>0 < FD_SETSIZE\<close>.
\<close>

definition SAL_Socket_CallbackWorker_cycle ::
    "platform \<Rightarrow> engine \<Rightarrow> fault + SOCKET list \<times> delivery list \<times> engine" where
  "SAL_Socket_CallbackWorker_cycle env s =
     (case batch_loop (memory s) (asyncSocketList s) 0 NULL (selectIterator s) [] of
        Inl e \<Rightarrow> Inl e
      | Inr (socket, it, readSet) \<Rightarrow>
          let it' = (if socket = NULL then AsyncLinkedList_ResetIterator else it)
          in case dispatch env (memory s) (asyncSocketList s) (select_leaves env readSet) 0 of
               Inl e \<Rightarrow> Inl e
             | Inr (ds, n) \<Rightarrow> Inr (readSet, ds, s\<lparr>selectIterator := it'\<rparr>))"

text \<open>
  The loop \<^verbatim>\<open>while (asyncWorkerRunning)\<close> of SAL\_Socket\_CallbackWorker\_Run, for as many
  cycles as the list gives platform behaviours; it returns each cycle's batch. The loop
  runs for as long as another thread leaves the flag set, so the number of cycles is
  given from outside. The cursor was taken when the thread was started.
\<close>

fun SAL_Socket_CallbackWorker_Run ::
    "platform list \<Rightarrow> engine \<Rightarrow> fault + SOCKET list list \<times> engine" where
  "SAL_Socket_CallbackWorker_Run [] s = Inr ([], s)"
| "SAL_Socket_CallbackWorker_Run (env # envs) s =
     (if asyncWorkerRunning s then
        (case SAL_Socket_CallbackWorker_cycle env s of
           Inl e \<Rightarrow> Inl e
         | Inr (readSet, ds, s') \<Rightarrow>
             (case SAL_Socket_CallbackWorker_Run envs s' of
                Inl e \<Rightarrow> Inl e
              | Inr (batches, s'') \<Rightarrow> Inr (readSet # batches, s'')))
      else Inr ([], s))"

section \<open>Sequences of calls\<close>

text \<open>The two registration calls, for sequences of them alone.\<close>

datatype registration_call =
    SetReadCallback ptr ptr ptr
  | UnsetSocketCallback ptr

fun do_call :: "engine \<Rightarrow> registration_call \<Rightarrow> fault + engine" where
  "do_call s (SetReadCallback socket callback state) =
     SAL_Socket_SetReadCallback s socket callback state"
| "do_call s (UnsetSocketCallback socket) = SAL_Socket_UnsetSocketCallback s socket"

fun do_calls :: "engine \<Rightarrow> registration_call list \<Rightarrow> fault + engine" where
  "do_calls s [] = Inr s"
| "do_calls s (c # cs) = (case do_call s c of Inl e \<Rightarrow> Inl e | Inr s' \<Rightarrow> do_calls s' cs)"

text \<open>
  What a program and the worker do to sockets that exist: register, unregister, close,
  clear all callbacks, run one worker cycle. SAL\_Socket\_Read and SAL\_Socket\_Write
  change no state of Socket.c.
\<close>

datatype api_call =
    Call_SetReadCallback ptr ptr ptr
  | Call_UnsetSocketCallback ptr
  | Call_Close ptr
  | Call_ClearCallbacks
  | Call_WorkerCycle platform

fun api_step :: "engine \<Rightarrow> api_call \<Rightarrow> fault + engine" where
  "api_step s (Call_SetReadCallback socket callback state) =
     SAL_Socket_SetReadCallback s socket callback state"
| "api_step s (Call_UnsetSocketCallback socket) = SAL_Socket_UnsetSocketCallback s socket"
| "api_step s (Call_Close socket) = SAL_Socket_Close s socket"
| "api_step s Call_ClearCallbacks = Inr (SAL_Socket_ClearCallbacks s)"
| "api_step s (Call_WorkerCycle env) =
     (case SAL_Socket_CallbackWorker_cycle env s of
        Inl e \<Rightarrow> Inl e
      | Inr (readSet, ds, s') \<Rightarrow> Inr s')"

fun api_run :: "engine \<Rightarrow> api_call list \<Rightarrow> fault + engine" where
  "api_run s [] = Inr s"
| "api_run s (c # cs) = (case api_step s c of Inl e \<Rightarrow> Inl e | Inr s' \<Rightarrow> api_run s' cs)"

section \<open>States\<close>

text \<open>The raw handle of the socket at an address.\<close>

definition handle_of :: "(ptr \<Rightarrow> SAL_Socket option) \<Rightarrow> ptr \<Rightarrow> SOCKET" where
  "handle_of mem p = (case mem p of None \<Rightarrow> 0 | Some sk \<Rightarrow> RawSocket sk)"

text \<open>
  The state at program start: the statics are zero, and every socket is as
  SAL\_Socket\_Init, connect, listen and accept leave it, with no callback.
\<close>

definition at_start :: "engine \<Rightarrow> bool" where
  "at_start s =
     (asyncSocketList s = [] \<and> \<not> asyncWorkerRunning s \<and> asyncWorker s = NoThread \<and>
      selectIterator s = 0 \<and> (\<forall>p sk. memory s p = Some sk \<longrightarrow> ReadCallback sk = NULL))"

text \<open>The invariant of the spec: the list holds exactly the sockets with a callback, once each.\<close>

definition registered_iff_callback :: "engine \<Rightarrow> bool" where
  "registered_iff_callback s =
     ((\<forall>p sk. memory s p = Some sk \<longrightarrow> (ReadCallback sk \<noteq> NULL \<longleftrightarrow> p \<in> set (asyncSocketList s)))
      \<and> (\<forall>p \<in> set (asyncSocketList s). memory s p \<noteq> None)
      \<and> distinct (asyncSocketList s))"

text \<open>While the worker is not running, nothing is registered; no entry is null.\<close>

definition engine_inv :: "engine \<Rightarrow> bool" where
  "engine_inv s =
     (registered_iff_callback s \<and> NULL \<notin> set (asyncSocketList s) \<and>
      (\<not> asyncWorkerRunning s \<longrightarrow> asyncSocketList s = []))"

text \<open>
  What every call and every worker cycle keeps: each entry of the list is a non-null
  address of a socket whose callback is set, and no entry occurs twice.
\<close>

definition registrations_valid :: "engine \<Rightarrow> bool" where
  "registrations_valid s =
     ((\<forall>p \<in> set (asyncSocketList s).
         p \<noteq> NULL \<and> (\<exists>sk. memory s p = Some sk \<and> ReadCallback sk \<noteq> NULL))
      \<and> distinct (asyncSocketList s))"

text \<open>
  A callback call as the dispatch makes it for a list entry: the byte count is what
  SAL\_Socket\_Read returned on the \<open>k\<close>-th \<open>recv\<close> of the cycle, the function and the
  state are the entry's, the buffer is the static one.
\<close>

definition delivered_as_read ::
    "platform \<Rightarrow> (ptr \<Rightarrow> SAL_Socket option) \<Rightarrow> nat \<Rightarrow> delivery \<Rightarrow> bool" where
  "delivered_as_read env mem k d =
     (SAL_Socket_Read (recv_returns env k) mem (invoked_on d)
        asyncSocketBuffer CALLBACK_BUFFER_SIZE = Inr (arg_length d) \<and>
      (case mem (invoked_on d) of
         None \<Rightarrow> False
       | Some sk \<Rightarrow> invoked d = ReadCallback sk \<and> arg_state d = ReadCallbackState sk) \<and>
      arg_buffer d = asyncSocketBuffer)"

section \<open>Examples\<close>

definition ex_memory :: "ptr \<Rightarrow> SAL_Socket option" where
  "ex_memory = (\<lambda>p. if p = 1 then Some (SAL_Socket_Init\<lparr>RawSocket := 7, Connected := True\<rparr>)
                    else if p = 2 then Some (SAL_Socket_Init\<lparr>RawSocket := 9, Connected := True\<rparr>)
                    else None)"

definition ex_start :: engine where
  "ex_start = \<lparr>memory = ex_memory, asyncSocketList = [], asyncWorker = NoThread,
               asyncWorkerRunning = False, selectIterator = 0\<rparr>"

definition ex_calls :: "registration_call list" where
  "ex_calls = [SetReadCallback 1 5 6, SetReadCallback 2 5 6, SetReadCallback 1 8 6,
               UnsetSocketCallback 2]"

text \<open>Socket 1 has a callback and is registered; the worker runs.\<close>

definition ex_registered :: engine where
  "ex_registered =
     \<lparr>memory = (\<lambda>p. if p = 1 then Some \<lparr>RawSocket = 7, Connected = True, LastError = 0,
                                          ReadCallback = 8, ReadCallbackState = 6\<rparr>
                     else if p = 2 then Some \<lparr>RawSocket = 9, Connected = True, LastError = 0,
                                          ReadCallback = NULL, ReadCallbackState = NULL\<rparr>
                     else None),
      asyncSocketList = [1], asyncWorker = Started, asyncWorkerRunning = True,
      selectIterator = 0\<rparr>"

text \<open>
  Close sockets 1 and 2, then register a callback on each: afterwards both are in the
  list and both hold the handle INVALID\_SOCKET.
\<close>

definition ex_closed_then_registered :: "api_call list" where
  "ex_closed_then_registered =
     [Call_Close 1, Call_Close 2, Call_SetReadCallback 1 8 6, Call_SetReadCallback 2 9 6]"

text \<open>
  A platform on which \<open>select\<close> reports every handle it was given as readable and every
  \<open>recv\<close> returns the given number.
\<close>

definition ex_platform :: "32 word \<Rightarrow> platform" where
  "ex_platform r = \<lparr>select_leaves = (\<lambda>fds. fds), recv_returns = (\<lambda>n h len. r)\<rparr>"

text \<open>
  The spec's scenario: 1500 registered sockets, at the addresses 1 to 1500, each holding
  its own handle.
\<close>

definition ex_many :: engine where
  "ex_many =
     \<lparr>memory = (\<lambda>p. if 1 \<le> p \<and> p \<le> 1500
                     then Some \<lparr>RawSocket = of_nat p, Connected = True, LastError = 0,
                                ReadCallback = 8, ReadCallbackState = 6\<rparr>
                     else None),
      asyncSocketList = [1..<1501], asyncWorker = Started, asyncWorkerRunning = True,
      selectIterator = 0\<rparr>"

text \<open>Register socket 1, clear all callbacks, register socket 1 again.\<close>

definition ex_restart :: "api_call list" where
  "ex_restart = [Call_SetReadCallback 1 8 6, Call_ClearCallbacks, Call_SetReadCallback 1 8 6]"

text \<open>
  1025 registered sockets, at the addresses 1 to 1025. Sockets 1 and 1025 were closed
  before they were registered and hold INVALID\_SOCKET; every other socket holds its own
  handle.
\<close>

definition ex_beyond_batch :: engine where
  "ex_beyond_batch =
     \<lparr>memory = (\<lambda>p. if p = 1 \<or> p = 1025
                     then Some \<lparr>RawSocket = INVALID_SOCKET, Connected = False, LastError = 0,
                                ReadCallback = 8, ReadCallbackState = 6\<rparr>
                     else if 1 < p \<and> p < 1025
                     then Some \<lparr>RawSocket = of_nat p, Connected = True, LastError = 0,
                                ReadCallback = 8, ReadCallbackState = 6\<rparr>
                     else None),
      asyncSocketList = [1..<1026], asyncWorker = Started, asyncWorkerRunning = True,
      selectIterator = 0\<rparr>"

text \<open>
  A platform on which \<open>select\<close> reports the one handle \<open>fd\<close> as readable, if it was
  given it, and every \<open>recv\<close> returns the given number.
\<close>

definition ex_platform_one :: "SOCKET \<Rightarrow> 32 word \<Rightarrow> platform" where
  "ex_platform_one fd r =
     \<lparr>select_leaves = (\<lambda>fds. if fd \<in> set fds then [fd] else []),
      recv_returns = (\<lambda>n h len. r)\<rparr>"

text \<open>A call with a null callback, followed by a call with valid arguments.\<close>

definition ex_null_then_valid :: "api_call list" where
  "ex_null_then_valid = [Call_SetReadCallback 1 NULL 6, Call_SetReadCallback 1 8 6]"

text \<open>
  What happens to a socket between its accept and its close: callbacks set and unset,
  worker cycles, all callbacks cleared, another socket closed.
\<close>

definition ex_life :: "api_call list" where
  "ex_life =
     [Call_SetReadCallback 3 8 6, Call_WorkerCycle (ex_platform 5), Call_UnsetSocketCallback 3,
      Call_Close 2, Call_SetReadCallback 3 9 6, Call_ClearCallbacks]"

text \<open>
  The start state after an accept on listener 1 that the platform answers with handle 11,
  the new socket allocated at address 3; and after a connect on the platform's new
  handle 12, the new socket allocated at address 4.
\<close>

definition ex_accepted :: engine where
  "ex_accepted =
     ex_start\<lparr>memory := (memory ex_start)(3 \<mapsto>
       \<lparr>RawSocket = 11, Connected = True, LastError = 0,
        ReadCallback = NULL, ReadCallbackState = NULL\<rparr>)\<rparr>"

definition ex_connected :: engine where
  "ex_connected =
     ex_start\<lparr>memory := (memory ex_start)(4 \<mapsto>
       \<lparr>RawSocket = 12, Connected = True, LastError = 0,
        ReadCallback = NULL, ReadCallbackState = NULL\<rparr>)\<rparr>"

section \<open>Registering and unregistering\<close>

lemma Set_Inr:
  assumes "SAL_Socket_SetReadCallback s p cb st = Inr s'"
  shows "p \<noteq> NULL \<and> cb \<noteq> NULL \<and> st \<noteq> NULL \<and>
    (\<exists>sk. memory s p = Some sk \<and>
      memory s' = (memory s)(p \<mapsto> sk\<lparr>ReadCallback := cb, ReadCallbackState := st\<rparr>) \<and>
      asyncSocketList s' =
        (if ReadCallback sk = NULL
         then (if asyncWorkerRunning s then asyncSocketList s else []) @ [p]
         else (if asyncWorkerRunning s then asyncSocketList s else []))) \<and>
    asyncWorkerRunning s' \<and>
    asyncWorker s' = (if asyncWorkerRunning s then asyncWorker s else Started) \<and>
    selectIterator s' = (if asyncWorkerRunning s then selectIterator s else 0)"
  using assms
  by (auto simp: SAL_Socket_SetReadCallback_def AsyncLinkedList_Append_def
        AsyncLinkedList_Initialize_def SAL_Socket_CallbackWorker_Initialize_def
        SAL_Thread_Create_def AsyncLinkedList_BeginIterate_def Let_def
      split: if_splits option.splits)

lemma Unset_Inr:
  assumes "SAL_Socket_UnsetSocketCallback s p = Inr s'"
  shows "p \<noteq> NULL \<and>
    (\<exists>sk. memory s p = Some sk \<and>
      (if ReadCallback sk \<noteq> NULL
       then s' = s\<lparr>memory := (memory s)(p \<mapsto> sk\<lparr>ReadCallback := NULL, ReadCallbackState := NULL\<rparr>),
                   asyncSocketList := remove1 p (asyncSocketList s)\<rparr>
       else s' = s))"
  using assms
  by (auto simp: SAL_Socket_UnsetSocketCallback_def AsyncLinkedList_Remove_def
      split: if_splits option.splits)

lemma at_start_inv: "at_start s \<Longrightarrow> engine_inv s"
  by (auto simp: at_start_def engine_inv_def registered_iff_callback_def)

lemma Set_inv:
  assumes inv: "engine_inv s" and run: "SAL_Socket_SetReadCallback s p cb st = Inr s'"
  shows "engine_inv s'"
proof -
  from Set_Inr [OF run] obtain sk where
    nn: "cb \<noteq> NULL" and pn: "p \<noteq> NULL" and
    sk: "memory s p = Some sk" and
    mem: "memory s' = (memory s)(p \<mapsto> sk\<lparr>ReadCallback := cb, ReadCallbackState := st\<rparr>)" and
    lst: "asyncSocketList s' =
        (if ReadCallback sk = NULL
         then (if asyncWorkerRunning s then asyncSocketList s else []) @ [p]
         else (if asyncWorkerRunning s then asyncSocketList s else []))" and
    running: "asyncWorkerRunning s'"
    by blast
  from inv have base: "(if asyncWorkerRunning s then asyncSocketList s else []) = asyncSocketList s"
    by (simp add: engine_inv_def)
  from inv have
    iff: "\<And>q x. memory s q = Some x \<Longrightarrow> (ReadCallback x \<noteq> NULL) = (q \<in> set (asyncSocketList s))" and
    valid: "\<And>q. q \<in> set (asyncSocketList s) \<Longrightarrow> memory s q \<noteq> None" and
    dist: "distinct (asyncSocketList s)" and
    nonnull: "NULL \<notin> set (asyncSocketList s)"
    by (auto simp: engine_inv_def registered_iff_callback_def)
  have in_list: "(ReadCallback sk \<noteq> NULL) = (p \<in> set (asyncSocketList s))"
    using iff [OF sk] .
  have lst': "asyncSocketList s' = (if p \<in> set (asyncSocketList s) then asyncSocketList s else asyncSocketList s @ [p])"
    using lst base in_list by auto
  have 1: "\<forall>q x. memory s' q = Some x \<longrightarrow> (ReadCallback x \<noteq> NULL) = (q \<in> set (asyncSocketList s'))"
    using iff nn by (auto simp: mem lst')
  have 2: "\<forall>q \<in> set (asyncSocketList s'). memory s' q \<noteq> None"
    using valid by (auto simp: mem lst')
  have 3: "distinct (asyncSocketList s')"
    using dist by (simp add: lst')
  have 4: "NULL \<notin> set (asyncSocketList s')"
    using nonnull pn by (simp add: lst')
  from 1 2 3 4 running show ?thesis
    by (simp add: engine_inv_def registered_iff_callback_def)
qed

lemma Unset_inv:
  assumes inv: "engine_inv s" and run: "SAL_Socket_UnsetSocketCallback s p = Inr s'"
  shows "engine_inv s'"
proof -
  from Unset_Inr [OF run] obtain sk where
    sk: "memory s p = Some sk" and
    s': "if ReadCallback sk \<noteq> NULL
       then s' = s\<lparr>memory := (memory s)(p \<mapsto> sk\<lparr>ReadCallback := NULL, ReadCallbackState := NULL\<rparr>),
                   asyncSocketList := remove1 p (asyncSocketList s)\<rparr>
       else s' = s"
    by blast
  show ?thesis
  proof (cases "ReadCallback sk \<noteq> NULL")
    case False
    with s' inv show ?thesis by simp
  next
    case True
    with s' have eq: "s' = s\<lparr>memory := (memory s)(p \<mapsto> sk\<lparr>ReadCallback := NULL, ReadCallbackState := NULL\<rparr>),
                   asyncSocketList := remove1 p (asyncSocketList s)\<rparr>" by simp
    from inv have
      iff: "\<And>q x. memory s q = Some x \<Longrightarrow> (ReadCallback x \<noteq> NULL) = (q \<in> set (asyncSocketList s))" and
      valid: "\<And>q. q \<in> set (asyncSocketList s) \<Longrightarrow> memory s q \<noteq> None" and
      dist: "distinct (asyncSocketList s)" and
      stopped: "\<not> asyncWorkerRunning s \<Longrightarrow> asyncSocketList s = []" and
      nonnull: "NULL \<notin> set (asyncSocketList s)"
      by (auto simp: engine_inv_def registered_iff_callback_def)
    have 1: "\<forall>q x. memory s' q = Some x \<longrightarrow> (ReadCallback x \<noteq> NULL) = (q \<in> set (asyncSocketList s'))"
      using iff dist by (auto simp: eq)
    have 2: "\<forall>q \<in> set (asyncSocketList s'). memory s' q \<noteq> None"
      using valid dist by (auto simp: eq)
    have 3: "distinct (asyncSocketList s')"
      using dist by (simp add: eq)
    have 4: "\<not> asyncWorkerRunning s' \<longrightarrow> asyncSocketList s' = []"
      using stopped by (auto simp: eq)
    have 5: "NULL \<notin> set (asyncSocketList s')"
      using nonnull dist by (auto simp: eq)
    from 1 2 3 4 5 show ?thesis
      by (simp add: engine_inv_def registered_iff_callback_def)
  qed
qed

lemma do_call_inv: "engine_inv s \<Longrightarrow> do_call s c = Inr s' \<Longrightarrow> engine_inv s'"
  by (cases c) (auto intro: Set_inv Unset_inv)

lemma do_calls_inv: "engine_inv s \<Longrightarrow> do_calls s cs = Inr s' \<Longrightarrow> engine_inv s'"
proof (induction cs arbitrary: s)
  case Nil
  then show ?case by simp
next
  case (Cons c cs)
  then show ?case
    by (auto split: sum.splits dest: do_call_inv)
qed

lemma Set_registered_same_list:
  assumes inv: "engine_inv s" and reg: "p \<in> set (asyncSocketList s)"
    and run: "SAL_Socket_SetReadCallback s p cb st = Inr s'"
  shows "asyncSocketList s' = asyncSocketList s"
proof -
  from inv reg have running: "asyncWorkerRunning s"
    by (auto simp: engine_inv_def)
  from Set_Inr [OF run] obtain sk where
    sk: "memory s p = Some sk" and
    lst: "asyncSocketList s' =
        (if ReadCallback sk = NULL
         then (if asyncWorkerRunning s then asyncSocketList s else []) @ [p]
         else (if asyncWorkerRunning s then asyncSocketList s else []))"
    by blast
  from inv sk reg have "ReadCallback sk \<noteq> NULL"
    by (simp add: engine_inv_def registered_iff_callback_def)
  with lst running show ?thesis by simp
qed

lemma Unset_not_registered:
  assumes inv: "engine_inv s" and run: "SAL_Socket_UnsetSocketCallback s p = Inr s'"
  shows "p \<notin> set (asyncSocketList s')"
proof -
  from Unset_inv [OF inv run] have inv': "engine_inv s'" .
  from Unset_Inr [OF run] obtain sk where
    sk: "memory s p = Some sk" and
    s': "if ReadCallback sk \<noteq> NULL
       then s' = s\<lparr>memory := (memory s)(p \<mapsto> sk\<lparr>ReadCallback := NULL, ReadCallbackState := NULL\<rparr>),
                   asyncSocketList := remove1 p (asyncSocketList s)\<rparr>
       else s' = s"
    by blast
  from s' sk obtain sk' where "memory s' p = Some sk'" and "ReadCallback sk' = NULL"
    by (cases "ReadCallback sk \<noteq> NULL") auto
  moreover from inv' have
    "\<And>q x. memory s' q = Some x \<Longrightarrow> (ReadCallback x \<noteq> NULL) = (q \<in> set (asyncSocketList s'))"
    by (simp add: engine_inv_def registered_iff_callback_def)
  ultimately show ?thesis by fastforce
qed

text \<open>
  C1. Start from the program's initial state and make any sequence of
  SAL\_Socket\_SetReadCallback and SAL\_Socket\_UnsetSocketCallback calls that returns.
  Then a socket's ReadCallback is non-null exactly when the socket is in asyncSocketList,
  the list has no duplicate entry, setting a callback on a socket that is already in
  the list leaves the list as it is, and after unsetting the socket is not in the list.
\<close>

theorem registration_invariant:
  assumes "at_start s0" and "do_calls s0 cs = Inr s"
  shows "registered_iff_callback s \<and>
    (\<forall>p cb st s'. p \<in> set (asyncSocketList s) \<longrightarrow>
        SAL_Socket_SetReadCallback s p cb st = Inr s' \<longrightarrow>
        asyncSocketList s' = asyncSocketList s) \<and>
    (\<forall>p s'. SAL_Socket_UnsetSocketCallback s p = Inr s' \<longrightarrow> p \<notin> set (asyncSocketList s'))"
proof -
  from assms have inv: "engine_inv s"
    by (blast intro: do_calls_inv at_start_inv)
  then have "registered_iff_callback s"
    by (simp add: engine_inv_def)
  moreover have "asyncSocketList s' = asyncSocketList s"
    if "p \<in> set (asyncSocketList s)" and "SAL_Socket_SetReadCallback s p cb st = Inr s'"
    for p cb st s'
    using Set_registered_same_list [OF inv that] .
  moreover have "p \<notin> set (asyncSocketList s')"
    if "SAL_Socket_UnsetSocketCallback s p = Inr s'" for p s'
    using Unset_not_registered [OF inv that] .
  ultimately show ?thesis by blast
qed

lemma ex_start_at_start: "at_start ex_start"
  by (simp add: at_start_def ex_start_def ex_memory_def SAL_Socket_Init_def)

lemma ex_calls_ok: "\<not> isl (do_calls ex_start ex_calls) \<and> asyncSocketList (projr (do_calls ex_start ex_calls)) = [1]"
  by (simp add: ex_calls_def ex_start_def ex_memory_def SAL_Socket_SetReadCallback_def SAL_Socket_UnsetSocketCallback_def
       SAL_Socket_CallbackWorker_Initialize_def AsyncLinkedList_Initialize_def  AsyncLinkedList_Append_def
       AsyncLinkedList_Remove_def SAL_Thread_Create_def AsyncLinkedList_BeginIterate_def SAL_Socket_Init_def Let_def)

theorem registration_invariant_witness:
  "at_start ex_start \<and> \<not> isl (do_calls ex_start ex_calls) \<and>
   asyncSocketList (projr (do_calls ex_start ex_calls)) = [1] \<and>
   registered_iff_callback (projr (do_calls ex_start ex_calls))"
proof -
  have run: "do_calls ex_start ex_calls = Inr (projr (do_calls ex_start ex_calls))"
    using ex_calls_ok by simp
  from registration_invariant [OF ex_start_at_start run] ex_start_at_start ex_calls_ok
  show ?thesis by simp
qed

text \<open>
  C10. A SAL\_Socket\_SetReadCallback or SAL\_Socket\_UnsetSocketCallback call that returns
  keeps every socket where it is, leaves RawSocket, Connected and LastError of every
  socket as they were, and leaves every socket other than its argument untouched.
\<close>

theorem callback_calls_frame:
  assumes "SAL_Socket_SetReadCallback s p cb st = Inr s' \<or> SAL_Socket_UnsetSocketCallback s p = Inr s'"
  shows "(memory s' q = None) = (memory s q = None) \<and>
    (\<forall>sk. memory s q = Some sk \<longrightarrow>
      (\<exists>sk'. memory s' q = Some sk' \<and> RawSocket sk' = RawSocket sk \<and>
         Connected sk' = Connected sk \<and> LastError sk' = LastError sk \<and>
         (q \<noteq> p \<longrightarrow> sk' = sk)))"
  using assms
proof
  assume "SAL_Socket_SetReadCallback s p cb st = Inr s'"
  from Set_Inr [OF this] show ?thesis by (auto split: if_splits)
next
  assume "SAL_Socket_UnsetSocketCallback s p = Inr s'"
  from Unset_Inr [OF this] show ?thesis by (auto split: if_splits)
qed

lemma ex_set_ok: "\<not> isl (SAL_Socket_SetReadCallback ex_start 1 5 6)"
  by (simp add: ex_start_def ex_memory_def SAL_Socket_SetReadCallback_def Let_def
        SAL_Socket_CallbackWorker_Initialize_def)

theorem callback_calls_frame_witness:
  "\<not> isl (SAL_Socket_SetReadCallback ex_start 1 5 6) \<and>
   (\<exists>sk'. memory (projr (SAL_Socket_SetReadCallback ex_start 1 5 6)) 1 = Some sk' \<and>
      RawSocket sk' = 7 \<and> Connected sk' \<and> LastError sk' = 0)"
proof -
  have run: "SAL_Socket_SetReadCallback ex_start 1 5 6 =
      Inr (projr (SAL_Socket_SetReadCallback ex_start 1 5 6))"
    using ex_set_ok by simp
  have m: "memory ex_start 1 = Some (SAL_Socket_Init\<lparr>RawSocket := 7, Connected := True\<rparr>)"
    by (simp add: ex_start_def ex_memory_def)
  from callback_calls_frame [OF disjI1 [OF run], of 1] m ex_set_ok
  show ?thesis by (simp add: SAL_Socket_Init_def)
qed

subsection \<open>Null arguments\<close>

text \<open>
  C5 (as stated, refuted). A call with a null callback does not hand an error to its
  caller: the assertion fails and the process is aborted. The registration with valid
  arguments that the program makes next, and that returns when made alone, is never made.
\<close>

theorem null_argument_aborts_counterexample:
  "SAL_Socket_SetReadCallback ex_start 1 NULL 6 = Inl AssertionFailed \<and>
   api_run ex_start ex_null_then_valid = Inl AssertionFailed \<and>
   \<not> isl (api_run ex_start [Call_SetReadCallback 1 8 6])"
  by (simp add: ex_null_then_valid_def SAL_Socket_SetReadCallback_def ex_start_def ex_memory_def
        SAL_Socket_CallbackWorker_Initialize_def Let_def)

text \<open>
  C5 (amended). SAL\_Socket\_SetReadCallback reports no error to its caller. With a null
  socket, a null callback or a null state its assertion fails, before the list or the
  socket is touched: the process is aborted, nothing is registered, and no later call of
  the program is made. With three arguments that are not null no assertion fails.
\<close>

theorem SetReadCallback_null_argument_aborts:
  "(socket = NULL \<or> callback = NULL \<or> state = NULL \<longrightarrow>
      SAL_Socket_SetReadCallback s socket callback state = Inl AssertionFailed \<and>
      api_run s (Call_SetReadCallback socket callback state # cs) = Inl AssertionFailed) \<and>
   (socket \<noteq> NULL \<and> callback \<noteq> NULL \<and> state \<noteq> NULL \<longrightarrow>
      SAL_Socket_SetReadCallback s socket callback state \<noteq> Inl AssertionFailed)"
proof (intro conjI impI)
  assume null: "socket = NULL \<or> callback = NULL \<or> state = NULL"
  then show abort: "SAL_Socket_SetReadCallback s socket callback state = Inl AssertionFailed"
    by (auto simp: SAL_Socket_SetReadCallback_def)
  then show "api_run s (Call_SetReadCallback socket callback state # cs) = Inl AssertionFailed"
    by simp
next
  assume "socket \<noteq> NULL \<and> callback \<noteq> NULL \<and> state \<noteq> NULL"
  then show "SAL_Socket_SetReadCallback s socket callback state \<noteq> Inl AssertionFailed"
    by (auto simp: SAL_Socket_SetReadCallback_def Let_def split: option.splits)
qed

theorem SetReadCallback_null_argument_aborts_witness:
  "SAL_Socket_SetReadCallback ex_start NULL 8 6 = Inl AssertionFailed \<and>
   SAL_Socket_SetReadCallback ex_start 1 NULL 6 = Inl AssertionFailed \<and>
   SAL_Socket_SetReadCallback ex_start 1 8 NULL = Inl AssertionFailed \<and>
   api_run ex_start (Call_SetReadCallback 1 NULL 6 # [Call_SetReadCallback 1 8 6]) =
     Inl AssertionFailed \<and>
   SAL_Socket_SetReadCallback ex_start 1 8 6 \<noteq> Inl AssertionFailed"
  using SetReadCallback_null_argument_aborts [of NULL 8 6 ex_start "[]"]
    SetReadCallback_null_argument_aborts [of 1 NULL 6 ex_start "[Call_SetReadCallback 1 8 6]"]
    SetReadCallback_null_argument_aborts [of 1 8 NULL ex_start "[]"]
    SetReadCallback_null_argument_aborts [of 1 8 6 ex_start "[]"]
  by simp

section \<open>Reading\<close>

lemma positive_int32_as_uint32: 
  assumes "0 < sint (r :: 32 word)" shows "uint r = sint r"
proof -
  have "bit r (LENGTH(32) - Suc 0) \<longleftrightarrow> sint r < 0"
    by (rule bit_last_iff)
  with assms have "\<not> bit r 31"
    by simp
  then have nb: "\<not> bit (uint r) 31"
    by (simp add: bit_uint_iff)
  then have "signed_take_bit 31 (uint r) = take_bit 31 (uint r)"
    by (rule signed_take_bit_eq_if_positive)
  moreover have "take_bit (Suc 31) (uint r) = take_bit 31 (uint r)"
    using nb take_bit_Suc_from_most [of 31 "uint r"] by simp
  moreover have "take_bit (Suc 31) (uint r) = uint r"
  proof -
    have "uint (take_bit (Suc 31) r) = take_bit (Suc 31) (uint r)"
      by (rule unsigned_take_bit_eq)
    moreover have "take_bit (Suc 31) r = r"
      using take_bit_length_eq [of r] by simp
    ultimately show ?thesis by simp
  qed
  ultimately show ?thesis by (simp add: sint_uint)
qed

lemma SAL_Socket_Read_Inr:
  assumes "buffer \<noteq> NULL" and "socket \<noteq> NULL" and "mem socket = Some sk"
  shows "\<exists>n. SAL_Socket_Read recv mem socket buffer bufferSize = Inr n"
  using assms by (simp add: SAL_Socket_Read_def Let_def)

text \<open>
  C9. SAL\_Socket\_Read on a valid socket and buffer returns 0 when recv returns zero or
  a negative number (would block, closed peer, error), and otherwise the positive number
  recv returned; when recv keeps to the buffer size it was given, so does the result.
\<close>

theorem SAL_Socket_Read_result:
  assumes "buffer \<noteq> NULL" and "socket \<noteq> NULL" and "mem socket = Some sk"
  shows "\<exists>n. SAL_Socket_Read recv mem socket buffer bufferSize = Inr n \<and>
      (sint (recv (RawSocket sk) bufferSize) \<le> 0 \<longrightarrow> n = 0) \<and>
      (0 < sint (recv (RawSocket sk) bufferSize) \<longrightarrow>
         uint n = sint (recv (RawSocket sk) bufferSize) \<and> n \<noteq> 0) \<and>
      (sint (recv (RawSocket sk) bufferSize) \<le> uint bufferSize \<longrightarrow> n \<le> bufferSize)"
proof (cases "sint (recv (RawSocket sk) bufferSize) \<le> 0")
  case True
  with assms show ?thesis
    by (simp add: SAL_Socket_Read_def)
next
  case False
  then have pos: "0 < sint (recv (RawSocket sk) bufferSize)" by simp
  from positive_int32_as_uint32 [OF pos] pos
  have u: "uint (recv (RawSocket sk) bufferSize) = sint (recv (RawSocket sk) bufferSize)" 
    and nz: "recv (RawSocket sk) bufferSize \<noteq> 0" by auto
  from False assms u nz show ?thesis
    by (simp add: SAL_Socket_Read_def word_le_def)
qed

theorem SAL_Socket_Read_result_witness:
  "SAL_Socket_Read (\<lambda>h n. 5) ex_memory 1 3 1024 = Inr 5 \<and>
   SAL_Socket_Read (\<lambda>h n. - 1) ex_memory 1 3 1024 = Inr 0"
  using SAL_Socket_Read_result [of 3 1 ex_memory "SAL_Socket_Init\<lparr>RawSocket := 7, Connected := True\<rparr>" "\<lambda>h n. 5" 1024]
    SAL_Socket_Read_result [of 3 1 ex_memory "SAL_Socket_Init\<lparr>RawSocket := 7, Connected := True\<rparr>" "\<lambda>h n. - 1" 1024]
  by (simp add: ex_memory_def SAL_Socket_Read_def)

section \<open>The worker\<close>

subsection \<open>The descriptor set built by the first loop\<close>

lemma FD_SETSIZE_pos: "0 < FD_SETSIZE"
  by (simp add: FD_SETSIZE_def)

lemma batch_loop_Inr:
  assumes "\<forall>p \<in> set l. p \<noteq> NULL \<and> mem p \<noteq> None" and "i \<le> FD_SETSIZE"
  shows "\<exists>socket'. batch_loop mem l i socket it readSet =
           Inr (socket', it + length (take (FD_SETSIZE - i) (drop it l)),
                fold (\<lambda>p. FD_SET (handle_of mem p)) (take (FD_SETSIZE - i) (drop it l)) readSet) \<and>
         (i < FD_SETSIZE \<longrightarrow> (socket' = NULL) = (length (drop it l) < FD_SETSIZE - i))"
  using assms
proof (induction mem l i socket it readSet rule: batch_loop.induct)
  case (1 mem l i socket it readSet)
  show ?case
  proof (cases "i < FD_SETSIZE")
    case False
    with "1.prems" have "i = FD_SETSIZE" by simp
    then show ?thesis
      by (subst batch_loop.simps) simp
  next
    case less: True
    show ?thesis
    proof (cases "it < length l")
      case False
      then have "AsyncLinkedList_IterateNext l it = (NULL, it)"
        by (simp add: AsyncLinkedList_IterateNext_def)
      with less False show ?thesis
        by (subst batch_loop.simps) simp
    next
      case True
      then have nxt: "AsyncLinkedList_IterateNext l it = (l ! it, Suc it)"
        by (simp add: AsyncLinkedList_IterateNext_def)
      from True have mem_l: "l ! it \<in> set l" by simp
      with "1.prems" obtain sk where nn: "l ! it \<noteq> NULL" and sk: "mem (l ! it) = Some sk"
        by auto
      from less have le': "Suc i \<le> FD_SETSIZE" by simp
      from "1.IH" [OF less nxt [symmetric] nn sk "1.prems"(1) le']
      obtain socket' where
        rec: "batch_loop mem l (Suc i) (l ! it) (Suc it) (FD_SET (RawSocket sk) readSet) =
           Inr (socket', Suc it + length (take (FD_SETSIZE - Suc i) (drop (Suc it) l)),
                fold (\<lambda>p. FD_SET (handle_of mem p)) (take (FD_SETSIZE - Suc i) (drop (Suc it) l))
                  (FD_SET (RawSocket sk) readSet))" and
        nul: "Suc i < FD_SETSIZE \<longrightarrow>
                (socket' = NULL) = (length (drop (Suc it) l) < FD_SETSIZE - Suc i)"
        by blast
      have dr: "drop it l = l ! it # drop (Suc it) l"
        using True by (simp add: Cons_nth_drop_Suc)
      from less obtain m where m: "FD_SETSIZE - i = Suc m" and m': "FD_SETSIZE - Suc i = m"
        by (cases "FD_SETSIZE - i") auto
      have h: "handle_of mem (l ! it) = RawSocket sk"
        by (simp add: handle_of_def sk)
      have unfold: "batch_loop mem l i socket it readSet =
          batch_loop mem l (Suc i) (l ! it) (Suc it) (FD_SET (RawSocket sk) readSet)"
        using less nxt nn sk by (subst batch_loop.simps) simp
      have last: "(socket' = NULL) = (length (drop it l) < FD_SETSIZE - i)"
      proof (cases "Suc i < FD_SETSIZE")
        case True
        with nul show ?thesis by (simp add: dr m m')
      next
        case False
        with less have "Suc i = FD_SETSIZE" by simp
        then have "batch_loop mem l (Suc i) (l ! it) (Suc it) (FD_SET (RawSocket sk) readSet) =
          Inr (l ! it, Suc it, FD_SET (RawSocket sk) readSet)"
          by (subst batch_loop.simps) simp
        with rec have "socket' = l ! it" by simp
        with nn \<open>Suc i = FD_SETSIZE\<close> True show ?thesis by auto
      qed
      show ?thesis
        unfolding unfold rec using last by (simp add: dr m m' h)
    qed
  qed
qed

lemma fold_FD_SET:
  assumes "length fds + length ps \<le> FD_SETSIZE"
  shows "set (fold (\<lambda>p. FD_SET (h p)) ps fds) = set fds \<union> h ` set ps \<and>
         length (fold (\<lambda>p. FD_SET (h p)) ps fds) \<le> length fds + length ps"
  using assms
proof (induction ps arbitrary: fds)
  case Nil
  then show ?case by simp
next
  case (Cons p ps)
  have len: "length (FD_SET (h p) fds) \<le> Suc (length fds)"
    by (simp add: FD_SET_def)
  from Cons.prems have room: "length fds < FD_SETSIZE"
    by simp
  then have st: "set (FD_SET (h p) fds) = insert (h p) (set fds)"
    by (auto simp: FD_SET_def)
  from Cons.prems len have "length (FD_SET (h p) fds) + length ps \<le> FD_SETSIZE"
    by simp
  from Cons.IH [OF this] len st show ?case
    by auto
qed

lemma batch_fold_empty:
  "set (fold (\<lambda>p. FD_SET (h p)) (take FD_SETSIZE ps) []) = h ` set (take FD_SETSIZE ps) \<and>
   length (fold (\<lambda>p. FD_SET (h p)) (take FD_SETSIZE ps) []) \<le> FD_SETSIZE"
proof -
  have "length ([] :: SOCKET list) + length (take FD_SETSIZE ps) \<le> FD_SETSIZE"
    by simp
  from fold_FD_SET [OF this, of h] show ?thesis
    by simp
qed

lemma FD_SET_distinct: "distinct fds \<Longrightarrow> distinct (FD_SET fd fds)"
  by (simp add: FD_SET_def)

lemma fold_FD_SET_distinct:
  "distinct fds \<Longrightarrow> distinct (fold (\<lambda>p. FD_SET (h p)) ps fds)"
  by (induction ps arbitrary: fds) (simp_all add: FD_SET_distinct)

subsection \<open>The dispatch\<close>

lemma asyncSocketBuffer_not_null: "asyncSocketBuffer \<noteq> NULL"
  by (simp add: asyncSocketBuffer_def)

lemma dispatch_entries_Inr:
  assumes "dispatch_entries env mem fd l n = Inr (ds, n')"
  shows "n' = n + length ds \<and>
         map invoked_on ds = filter (\<lambda>p. handle_of mem p = fd) l \<and>
         (\<forall>k < length ds. delivered_as_read env mem (n + k) (ds ! k))"
  using assms
proof (induction l arbitrary: n ds n')
  case Nil
  then show ?case by simp
next
  case (Cons p l)
  from Cons.prems obtain sk where sk: "mem p = Some sk"
    by (auto split: option.splits)
  show ?case
  proof (cases "RawSocket sk = fd")
    case False
    with Cons.prems sk have "dispatch_entries env mem fd l n = Inr (ds, n')"
      by simp
    from Cons.IH [OF this] False sk show ?thesis
      by (simp add: handle_of_def)
  next
    case True
    with Cons.prems sk obtain bytesRead ds0 where
      rd: "SAL_Socket_Read (recv_returns env n) mem p asyncSocketBuffer CALLBACK_BUFFER_SIZE
             = Inr bytesRead" and
      rest: "dispatch_entries env mem fd l (Suc n) = Inr (ds0, n')" and
      ds: "ds = \<lparr>invoked_on = p, invoked = ReadCallback sk, arg_buffer = asyncSocketBuffer,
                 arg_length = bytesRead, arg_state = ReadCallbackState sk\<rparr> # ds0"
      by (auto split: sum.splits if_splits prod.splits)
    from Cons.IH [OF rest] have
      n': "n' = Suc n + length ds0" and
      who: "map invoked_on ds0 = filter (\<lambda>p. handle_of mem p = fd) l" and
      each: "\<And>k. k < length ds0 \<Longrightarrow> delivered_as_read env mem (Suc n + k) (ds0 ! k)"
      by auto
    have "delivered_as_read env mem (n + k) (ds ! k)" if "k < length ds" for k
    proof (cases k)
      case 0
      with rd sk show ?thesis by (simp add: ds delivered_as_read_def)
    next
      case (Suc j)
      with that have "j < length ds0" by (simp add: ds)
      from each [OF this] Suc show ?thesis by (simp add: ds)
    qed
    with n' who True sk show ?thesis
      by (simp add: ds handle_of_def)
  qed
qed

lemma dispatch_Inr:
  assumes "dispatch env mem l fds n = Inr (ds, n')"
  shows "n' = n + length ds \<and>
         map invoked_on ds = concat (map (\<lambda>fd. filter (\<lambda>p. handle_of mem p = fd) l) fds) \<and>
         (\<forall>k < length ds. delivered_as_read env mem (n + k) (ds ! k))"
  using assms
proof (induction fds arbitrary: n ds n')
  case Nil
  then show ?case by simp
next
  case (Cons fd fds)
  from Cons.prems obtain ds1 n1 ds2 where
    one: "dispatch_entries env mem fd l n = Inr (ds1, n1)" and
    more: "dispatch env mem l fds n1 = Inr (ds2, n')" and
    ds: "ds = ds1 @ ds2"
    by (auto split: sum.splits prod.splits)
  from dispatch_entries_Inr [OF one] have
    n1: "n1 = n + length ds1" and
    who1: "map invoked_on ds1 = filter (\<lambda>p. handle_of mem p = fd) l" and
    each1: "\<And>k. k < length ds1 \<Longrightarrow> delivered_as_read env mem (n + k) (ds1 ! k)"
    by auto
  from Cons.IH [OF more] have
    n': "n' = n1 + length ds2" and
    who2: "map invoked_on ds2 = concat (map (\<lambda>fd. filter (\<lambda>p. handle_of mem p = fd) l) fds)" and
    each2: "\<And>k. k < length ds2 \<Longrightarrow> delivered_as_read env mem (n1 + k) (ds2 ! k)"
    by auto
  have each: "delivered_as_read env mem (n + k) (ds ! k)" if "k < length ds" for k
  proof (cases "k < length ds1")
    case True
    with each1 show ?thesis by (simp add: ds nth_append)
  next
    case False
    with that have "k - length ds1 < length ds2" by (simp add: ds)
    from each2 [OF this] have "delivered_as_read env mem (n1 + (k - length ds1)) (ds2 ! (k - length ds1))" .
    moreover from False have "n1 + (k - length ds1) = n + k" by (simp add: n1)
    ultimately show ?thesis using False by (simp add: ds nth_append)
  qed
  have "n' = n + length ds"
    by (simp add: n' n1 ds)
  moreover have "map invoked_on ds =
      concat (map (\<lambda>fd. filter (\<lambda>p. handle_of mem p = fd) l) (fd # fds))"
    by (simp add: ds who1 who2)
  ultimately show ?case using each by blast
qed

lemma dispatch_entries_total:
  assumes "\<forall>p \<in> set l. p \<noteq> NULL \<and> (\<exists>sk. mem p = Some sk \<and> ReadCallback sk \<noteq> NULL)"
  shows "\<exists>ds n'. dispatch_entries env mem fd l n = Inr (ds, n')"
  using assms
proof (induction l arbitrary: n)
  case Nil
  then show ?case by simp
next
  case (Cons p l)
  then obtain sk where pn: "p \<noteq> NULL" and sk: "mem p = Some sk" and cb: "ReadCallback sk \<noteq> NULL"
    by auto
  from Cons.prems have rest: "\<forall>p \<in> set l. p \<noteq> NULL \<and> (\<exists>sk. mem p = Some sk \<and> ReadCallback sk \<noteq> NULL)"
    by simp
  from SAL_Socket_Read_Inr [of asyncSocketBuffer p mem sk "recv_returns env n" CALLBACK_BUFFER_SIZE]
    asyncSocketBuffer_not_null pn sk obtain b where
    rd: "SAL_Socket_Read (recv_returns env n) mem p asyncSocketBuffer CALLBACK_BUFFER_SIZE = Inr b"
    by blast
  from Cons.IH [OF rest, of "Suc n"] obtain ds1 n1 where
    a: "dispatch_entries env mem fd l (Suc n) = Inr (ds1, n1)" by blast
  from Cons.IH [OF rest, of n] obtain ds2 n2 where
    b: "dispatch_entries env mem fd l n = Inr (ds2, n2)" by blast
  from sk cb rd a b show ?case
    by simp
qed

lemma dispatch_total:
  assumes "\<forall>p \<in> set l. p \<noteq> NULL \<and> (\<exists>sk. mem p = Some sk \<and> ReadCallback sk \<noteq> NULL)"
  shows "\<exists>ds n'. dispatch env mem l fds n = Inr (ds, n')"
proof (induction fds arbitrary: n)
  case Nil
  then show ?case by simp
next
  case (Cons fd fds)
  from dispatch_entries_total [OF assms, of env fd n] obtain ds1 n1 where
    a: "dispatch_entries env mem fd l n = Inr (ds1, n1)" by blast
  from Cons.IH [of n1] obtain ds2 n2 where
    b: "dispatch env mem l fds n1 = Inr (ds2, n2)" by blast
  from a b show ?case by simp
qed

subsection \<open>One cycle\<close>

lemma cycle_dispatch:
  assumes "SAL_Socket_CallbackWorker_cycle env s = Inr (readSet, ds, s')"
  shows "\<exists>n. dispatch env (memory s) (asyncSocketList s) (select_leaves env readSet) 0 = Inr (ds, n)"
  using assms
  by (auto simp: SAL_Socket_CallbackWorker_cycle_def Let_def split: sum.splits prod.splits)

lemma cycle_memory:
  assumes "SAL_Socket_CallbackWorker_cycle env s = Inr (readSet, ds, s')"
  shows "memory s' = memory s \<and> asyncSocketList s' = asyncSocketList s"
  using assms
  by (auto simp: SAL_Socket_CallbackWorker_cycle_def Let_def split: sum.splits prod.splits)

lemma cycle_valid:
  assumes "registrations_valid s"
  shows "\<exists>ds. SAL_Socket_CallbackWorker_cycle env s =
      Inr (fold (\<lambda>p. FD_SET (handle_of (memory s) p))
             (take FD_SETSIZE (drop (selectIterator s) (asyncSocketList s))) [],
           ds,
           s\<lparr>selectIterator :=
               (if length (drop (selectIterator s) (asyncSocketList s)) < FD_SETSIZE then 0
                else selectIterator s + FD_SETSIZE)\<rparr>)"
proof -
  let ?l = "asyncSocketList s" and ?c = "selectIterator s" and ?mem = "memory s"
  from assms have reg: "\<forall>p \<in> set ?l. p \<noteq> NULL \<and> (\<exists>sk. ?mem p = Some sk \<and> ReadCallback sk \<noteq> NULL)"
    by (simp add: registrations_valid_def)
  then have valid: "\<forall>p \<in> set ?l. p \<noteq> NULL \<and> ?mem p \<noteq> None"
    by auto
  have "0 \<le> FD_SETSIZE" by simp
  from batch_loop_Inr [OF valid this, of NULL ?c "[]"] FD_SETSIZE_pos
  obtain socket' where
    loop: "batch_loop ?mem ?l 0 NULL ?c [] =
       Inr (socket', ?c + length (take FD_SETSIZE (drop ?c ?l)),
            fold (\<lambda>p. FD_SET (handle_of ?mem p)) (take FD_SETSIZE (drop ?c ?l)) [])" and
    nul: "(socket' = NULL) = (length (drop ?c ?l) < FD_SETSIZE)"
    by auto
  let ?rs = "fold (\<lambda>p. FD_SET (handle_of ?mem p)) (take FD_SETSIZE (drop ?c ?l)) []"
  from dispatch_total [OF reg, of env "select_leaves env ?rs" 0] obtain ds n where
    d: "dispatch env ?mem ?l (select_leaves env ?rs) 0 = Inr (ds, n)" by blast
  have cur: "(if socket' = NULL then AsyncLinkedList_ResetIterator
              else ?c + length (take FD_SETSIZE (drop ?c ?l))) =
        (if length (drop ?c ?l) < FD_SETSIZE then 0 else ?c + FD_SETSIZE)"
  proof (cases "length (drop ?c ?l) < FD_SETSIZE")
    case True
    with nul show ?thesis by (simp add: AsyncLinkedList_ResetIterator_def)
  next
    case False
    then have "length (take FD_SETSIZE (drop ?c ?l)) = FD_SETSIZE" by simp
    with nul False show ?thesis by (simp del: length_take length_drop)
  qed
  have "SAL_Socket_CallbackWorker_cycle env s =
      Inr (?rs, ds, s\<lparr>selectIterator :=
               (if socket' = NULL then AsyncLinkedList_ResetIterator
                else ?c + length (take FD_SETSIZE (drop ?c ?l)))\<rparr>)"
    unfolding SAL_Socket_CallbackWorker_cycle_def loop Let_def using d
    by (simp del: length_take length_drop split del: if_split)
  then have "SAL_Socket_CallbackWorker_cycle env s =
      Inr (?rs, ds, s\<lparr>selectIterator :=
               (if length (drop ?c ?l) < FD_SETSIZE then 0 else ?c + FD_SETSIZE)\<rparr>)"
    by (simp only: cur)
  then show ?thesis by blast
qed

subsection \<open>Zero-byte reads\<close>

lemma ex_cycle_zero_bytes:
  "SAL_Socket_CallbackWorker_cycle (ex_platform 0) ex_registered =
     Inr ([7],
          [\<lparr>invoked_on = 1, invoked = 8, arg_buffer = asyncSocketBuffer, arg_length = 0,
            arg_state = 6\<rparr>],
          ex_registered)"
  by (simp add: SAL_Socket_CallbackWorker_cycle_def ex_registered_def ex_platform_def
        batch_loop.simps AsyncLinkedList_IterateNext_def AsyncLinkedList_ResetIterator_def
        FD_SETSIZE_def FD_SET_def SAL_Socket_Read_def asyncSocketBuffer_def Let_def)

text \<open>
  C2 (as stated, refuted). Socket 1 is registered with callback 8, its handle 7 is reported
  readable, and \<open>recv\<close> returns 0, so that SAL\_Socket\_Read returns 0: the worker still
  calls callback 8, with byte count 0.
\<close>

theorem callback_on_zero_bytes_counterexample:
  "SAL_Socket_Read (recv_returns (ex_platform 0) 0) (memory ex_registered) 1
     asyncSocketBuffer CALLBACK_BUFFER_SIZE = Inr 0 \<and>
   SAL_Socket_CallbackWorker_cycle (ex_platform 0) ex_registered =
     Inr ([7],
          [\<lparr>invoked_on = 1, invoked = 8, arg_buffer = asyncSocketBuffer, arg_length = 0,
            arg_state = 6\<rparr>],
          ex_registered)"
  using ex_cycle_zero_bytes
  by (simp add: SAL_Socket_Read_def ex_registered_def ex_platform_def asyncSocketBuffer_def)

text \<open>
  C2 (amended). In a cycle that returns, the worker calls the callback of every list
  entry whose RawSocket equals a handle that \<open>select\<close> left in the set, once per such
  handle and entry, in order, and passes as byte count whatever SAL\_Socket\_Read returned
  for that entry, zero included: no call is skipped on account of the byte count.
\<close>

theorem callback_called_with_read_result:
  assumes "SAL_Socket_CallbackWorker_cycle env s = Inr (readSet, ds, s')"
  shows "map invoked_on ds =
           concat (map (\<lambda>fd. filter (\<lambda>p. handle_of (memory s) p = fd) (asyncSocketList s))
                       (select_leaves env readSet)) \<and>
         (\<forall>k < length ds. delivered_as_read env (memory s) k (ds ! k))"
proof -
  from cycle_dispatch [OF assms] obtain n where
    "dispatch env (memory s) (asyncSocketList s) (select_leaves env readSet) 0 = Inr (ds, n)"
    by blast
  from dispatch_Inr [OF this] show ?thesis by simp
qed

theorem callback_called_with_read_result_witness:
  "SAL_Socket_CallbackWorker_cycle (ex_platform 0) ex_registered =
     Inr ([7],
          [\<lparr>invoked_on = 1, invoked = 8, arg_buffer = asyncSocketBuffer, arg_length = 0,
            arg_state = 6\<rparr>],
          ex_registered) \<and>
   delivered_as_read (ex_platform 0) (memory ex_registered) 0
     \<lparr>invoked_on = 1, invoked = 8, arg_buffer = asyncSocketBuffer, arg_length = 0,
       arg_state = 6\<rparr>"
  using callback_called_with_read_result [OF ex_cycle_zero_bytes] ex_cycle_zero_bytes
  by simp

subsection \<open>Who is called back\<close>

lemma ex_registered_valid: "registrations_valid ex_registered"
  by (simp add: registrations_valid_def ex_registered_def)

text \<open>
  Two registered sockets that hold one handle are reached by calls from the program's
  start: close sockets 1 and 2, then register both. Both hold INVALID\_SOCKET, the batch
  is that one handle, and when \<open>select\<close> leaves it in the set the dispatch calls back
  once for each of the two entries.
\<close>

lemma closed_then_registered_share_handle:
  "\<not> isl (api_run ex_start ex_closed_then_registered) \<and>
   asyncSocketList (projr (api_run ex_start ex_closed_then_registered)) = [1, 2] \<and>
   handle_of (memory (projr (api_run ex_start ex_closed_then_registered))) 1 = INVALID_SOCKET \<and>
   handle_of (memory (projr (api_run ex_start ex_closed_then_registered))) 2 = INVALID_SOCKET \<and>
   select_leaves (ex_platform (- 1)) [INVALID_SOCKET] = [INVALID_SOCKET] \<and>
   SAL_Socket_CallbackWorker_cycle (ex_platform (- 1))
       (projr (api_run ex_start ex_closed_then_registered)) =
     Inr ([INVALID_SOCKET],
          [\<lparr>invoked_on = 1, invoked = 8, arg_buffer = asyncSocketBuffer, arg_length = 0,
            arg_state = 6\<rparr>,
           \<lparr>invoked_on = 2, invoked = 9, arg_buffer = asyncSocketBuffer, arg_length = 0,
            arg_state = 6\<rparr>],
          projr (api_run ex_start ex_closed_then_registered))"
  by (simp add: ex_closed_then_registered_def ex_start_def ex_memory_def SAL_Socket_Init_def
        SAL_Socket_Close_def SAL_Socket_UnsetSocketCallback_def SAL_Socket_SetReadCallback_def
        SAL_Socket_CallbackWorker_Initialize_def AsyncLinkedList_Initialize_def
        AsyncLinkedList_Append_def SAL_Thread_Create_def AsyncLinkedList_BeginIterate_def
        handle_of_def ex_platform_def INVALID_SOCKET_def Let_def
        SAL_Socket_CallbackWorker_cycle_def batch_loop.simps AsyncLinkedList_IterateNext_def
        AsyncLinkedList_ResetIterator_def FD_SETSIZE_def FD_SET_def SAL_Socket_Read_def
        asyncSocketBuffer_def)

lemma handle_of_nat_inj:
  assumes "p < 2 ^ 64" and "q < 2 ^ 64" and "(of_nat p :: SOCKET) = of_nat q"
  shows "p = q"
proof -
  from assms(3) have "take_bit LENGTH(64) p = take_bit LENGTH(64) q"
    by (simp only: word_of_nat_eq_iff)
  moreover from assms(1) have "take_bit LENGTH(64) p = p"
    by (simp add: take_bit_nat_eq_self)
  moreover from assms(2) have "take_bit LENGTH(64) q = q"
    by (simp add: take_bit_nat_eq_self)
  ultimately show ?thesis by simp
qed

lemma handle_of_nat_valid:
  assumes "p < 2 ^ 64 - 1"
  shows "(of_nat p :: SOCKET) \<noteq> INVALID_SOCKET"
proof
  assume "(of_nat p :: SOCKET) = INVALID_SOCKET"
  then have "unat (of_nat p :: SOCKET) = unat (- 1 :: SOCKET)"
    by (simp add: INVALID_SOCKET_def)
  moreover from assms have "unat (of_nat p :: SOCKET) = p"
    by (simp add: unat_of_nat)
  moreover have "unat (- 1 :: SOCKET) = 2 ^ 64 - 1"
    by (simp add: unsigned_minus_1_eq_mask mask_eq_exp_minus_1)
  ultimately show False using assms by simp
qed

lemma ex_beyond_batch_valid: "registrations_valid ex_beyond_batch"
  by (simp add: registrations_valid_def ex_beyond_batch_def)

lemma ex_beyond_batch_matches:
  "filter (\<lambda>p. handle_of (memory ex_beyond_batch) p = INVALID_SOCKET)
     (asyncSocketList ex_beyond_batch) = [1, 1025]"
proof -
  let ?h = "handle_of (memory ex_beyond_batch)"
  have split: "[1..<1026] = [1] @ [2..<1025] @ [1025 :: nat]"
  proof -
    have a: "[1..<1025 + 1] = [1..<1025] @ [1025..<1025 + (1 :: nat)]"
      by (rule upt_add_eq_append) simp
    have b: "[1..<2 + 1023] = [1..<2] @ [2..<2 + (1023 :: nat)]"
      by (rule upt_add_eq_append) simp
    have c: "[1..<2] = [1 :: nat]" "[1025..<1026] = [1025 :: nat]"
      by (simp_all add: upt_rec)
    have n: "(1025 :: nat) + 1 = 1026" "(2 :: nat) + 1023 = 1025"
      by simp_all
    from a b show ?thesis
      by (simp only: n c append_assoc)
  qed
  have mid: "filter (\<lambda>p. ?h p = INVALID_SOCKET) [2..<1025] = []"
  proof -
    have "?h p \<noteq> INVALID_SOCKET" if "p \<in> set [2..<1025]" for p
    proof -
      from that have "p \<in> {2..<1025}" by (simp only: set_upt)
      then have "1 < p" and "p < 1025" by simp_all
      then have "?h p = of_nat p"
        by (simp add: handle_of_def ex_beyond_batch_def)
      moreover from \<open>p < 1025\<close> have "p < 2 ^ 64 - 1" by simp
      ultimately show ?thesis by (simp add: handle_of_nat_valid)
    qed
    then show ?thesis by (simp only: filter_empty_conv) blast
  qed
  have ends: "?h 1 = INVALID_SOCKET" "?h 1025 = INVALID_SOCKET"
    by (simp_all add: handle_of_def ex_beyond_batch_def)
  have l: "asyncSocketList ex_beyond_batch = [1..<1026]"
    by (simp only: ex_beyond_batch_def engine.select_convs)
  have e1: "filter (\<lambda>p. ?h p = INVALID_SOCKET) [1] = [1]"
    and e2: "filter (\<lambda>p. ?h p = INVALID_SOCKET) [1025] = [1025]"
    using ends by simp_all
  have "filter (\<lambda>p. ?h p = INVALID_SOCKET) (asyncSocketList ex_beyond_batch) =
        filter (\<lambda>p. ?h p = INVALID_SOCKET) [1] @
        filter (\<lambda>p. ?h p = INVALID_SOCKET) [2..<1025] @
        filter (\<lambda>p. ?h p = INVALID_SOCKET) [1025]"
    by (simp only: l split filter_append)
  also have "\<dots> = [1] @ [] @ [1025]"
    by (simp only: e1 e2 mid)
  finally show ?thesis by simp
qed

lemma ex_beyond_batch_first_batch:
  "take FD_SETSIZE (drop (selectIterator ex_beyond_batch) (asyncSocketList ex_beyond_batch)) =
     [1..<1025]"
proof -
  have l: "asyncSocketList ex_beyond_batch = [1..<1026]"
    by (simp only: ex_beyond_batch_def engine.select_convs)
  have c: "selectIterator ex_beyond_batch = 0"
    by (simp only: ex_beyond_batch_def engine.select_convs)
  have "take 1024 [1..<1026] = [1..<1 + (1024 :: nat)]"
    by (rule take_upt) simp
  moreover have "1 + (1024 :: nat) = 1025"
    by simp
  ultimately have "take 1024 [1..<1026] = [1..<(1025 :: nat)]"
    by (simp only:)
  then show ?thesis
    by (simp only: l c drop_0 FD_SETSIZE_def)
qed

text \<open>
  C3 (as stated, refuted). Of 1025 registered sockets the first cycle puts the sockets
  1 to 1024 into its batch. Sockets 1 and 1025 hold the same handle; \<open>select\<close> reports
  that one handle, once. The dispatch calls back socket 1 and socket 1025: socket 1025
  receives a delivery although it is not in the cycle's batch, and the one readable
  handle is dispatched twice.
\<close>

theorem delivery_outside_batch_counterexample:
  "registrations_valid ex_beyond_batch \<and>
   \<not> isl (SAL_Socket_CallbackWorker_cycle (ex_platform_one INVALID_SOCKET 5) ex_beyond_batch) \<and>
   select_leaves (ex_platform_one INVALID_SOCKET 5)
     (fst (projr (SAL_Socket_CallbackWorker_cycle (ex_platform_one INVALID_SOCKET 5)
        ex_beyond_batch))) = [INVALID_SOCKET] \<and>
   map invoked_on
     (fst (snd (projr (SAL_Socket_CallbackWorker_cycle (ex_platform_one INVALID_SOCKET 5)
        ex_beyond_batch)))) = [1, 1025] \<and>
   1025 \<notin> set (take FD_SETSIZE (drop (selectIterator ex_beyond_batch)
                                    (asyncSocketList ex_beyond_batch))) \<and>
   handle_of (memory ex_beyond_batch) 1 = INVALID_SOCKET \<and>
   handle_of (memory ex_beyond_batch) 1025 = INVALID_SOCKET \<and>
   length (filter (\<lambda>d. handle_of (memory ex_beyond_batch) (invoked_on d) = INVALID_SOCKET)
     (fst (snd (projr (SAL_Socket_CallbackWorker_cycle (ex_platform_one INVALID_SOCKET 5)
        ex_beyond_batch))))) = 2"
proof -
  let ?E = "ex_platform_one INVALID_SOCKET 5"
  let ?h = "handle_of (memory ex_beyond_batch)"
  let ?l = "asyncSocketList ex_beyond_batch"
  let ?batch = "take FD_SETSIZE (drop (selectIterator ex_beyond_batch) ?l)"
  let ?readSet = "fold (\<lambda>p. FD_SET (?h p)) ?batch []"
  from cycle_valid [OF ex_beyond_batch_valid, of ?E] obtain ds s' where
    run: "SAL_Socket_CallbackWorker_cycle ?E ex_beyond_batch = Inr (?readSet, ds, s')"
    by blast
  have ends: "?h 1 = INVALID_SOCKET" "?h 1025 = INVALID_SOCKET"
    by (simp_all add: handle_of_def ex_beyond_batch_def)
  have "1 \<in> set ?batch"
    unfolding ex_beyond_batch_first_batch set_upt by simp
  then have "?h 1 \<in> ?h ` set ?batch"
    by (rule imageI)
  with ends(1) have "INVALID_SOCKET \<in> ?h ` set ?batch"
    by (simp only:)
  with batch_fold_empty [of ?h "drop (selectIterator ex_beyond_batch) ?l"]
  have "INVALID_SOCKET \<in> set ?readSet"
    by (simp only:)
  then have leaves: "select_leaves ?E ?readSet = [INVALID_SOCKET]"
    by (simp add: ex_platform_one_def)
  from cycle_dispatch [OF run] obtain n where
    "dispatch ?E (memory ex_beyond_batch) ?l (select_leaves ?E ?readSet) 0 = Inr (ds, n)"
    by blast
  from dispatch_Inr [OF this] have
    "map invoked_on ds =
       concat (map (\<lambda>fd. filter (\<lambda>p. ?h p = fd) ?l) (select_leaves ?E ?readSet))"
    by (rule conjunct1 [OF conjunct2])
  then have "map invoked_on ds = filter (\<lambda>p. ?h p = INVALID_SOCKET) ?l"
    by (simp only: leaves list.map concat.simps append_Nil2)
  then have who: "map invoked_on ds = [1, 1025]"
    by (simp only: ex_beyond_batch_matches)
  have out: "1025 \<notin> set ?batch"
    unfolding ex_beyond_batch_first_batch set_upt by simp
  have "length (filter (\<lambda>d. ?h (invoked_on d) = INVALID_SOCKET) ds) =
        length (filter (\<lambda>p. ?h p = INVALID_SOCKET) (map invoked_on ds))"
    by (simp add: filter_map comp_def)
  also have "\<dots> = 2"
    unfolding who using ends by simp
  finally have twice: "length (filter (\<lambda>d. ?h (invoked_on d) = INVALID_SOCKET) ds) = 2" .
  have r: "\<not> isl (SAL_Socket_CallbackWorker_cycle ?E ex_beyond_batch)"
    and p1: "fst (projr (SAL_Socket_CallbackWorker_cycle ?E ex_beyond_batch)) = ?readSet"
    and p2: "fst (snd (projr (SAL_Socket_CallbackWorker_cycle ?E ex_beyond_batch))) = ds"
    by (simp_all only: run sum.sel sum.disc fst_conv snd_conv not_False_eq_True)
  show ?thesis
    unfolding p1 p2
    using ex_beyond_batch_valid r leaves who out ends twice
    by (intro conjI)
qed

lemma filter_handle_at_most_one:
  assumes "distinct l" and "inj_on h (set l)"
  shows "length (filter (\<lambda>p. h p = fd) l) \<le> 1"
  using assms
proof (induction l)
  case Nil
  then show ?case by simp
next
  case (Cons p l)
  then have IH: "length (filter (\<lambda>p. h p = fd) l) \<le> 1" by simp
  show ?case
  proof (cases "h p = fd")
    case False
    with IH show ?thesis by simp
  next
    case True
    have "filter (\<lambda>q. h q = fd) l = []"
    proof (rule ccontr)
      assume "filter (\<lambda>q. h q = fd) l \<noteq> []"
      then obtain q where "q \<in> set l" and "h q = fd"
        by (auto simp: filter_empty_conv)
      with True have "h q = h p" and "q \<in> set (p # l)" and "p \<in> set (p # l)"
        by simp_all
      with Cons.prems(2) have "q = p"
        by (rule inj_onD)
      with \<open>q \<in> set l\<close> Cons.prems show False by simp
    qed
    with True show ?thesis by simp
  qed
qed

lemma filter_rescan:
  assumes "distinct fds"
  shows "filter (\<lambda>p. h p = fd) (concat (map (\<lambda>f. filter (\<lambda>p. h p = f) l) fds)) =
         (if fd \<in> set fds then filter (\<lambda>p. h p = fd) l else [])"
  using assms
proof (induction fds)
  case Nil
  then show ?case by simp
next
  case (Cons f fds)
  have one: "filter (\<lambda>p. h p = fd) (filter (\<lambda>p. h p = f) l) =
      (if f = fd then filter (\<lambda>p. h p = fd) l else [])"
    by (auto simp: filter_empty_conv intro: filter_cong)
  from Cons have rest: "filter (\<lambda>p. h p = fd) (concat (map (\<lambda>f. filter (\<lambda>p. h p = f) l) fds)) =
         (if fd \<in> set fds then filter (\<lambda>p. h p = fd) l else [])"
    by simp
  from Cons.prems have "f \<notin> set fds" by simp
  with one rest show ?case by auto
qed

lemma rescan_members:
  "set (concat (map (\<lambda>f. filter (\<lambda>p. h p = f) l) fds)) = {p \<in> set l. h p \<in> set fds}"
  by auto

lemma ex_many_valid: "registrations_valid ex_many"
  by (simp add: registrations_valid_def ex_many_def)

lemma ex_many_first_batch:
  "take FD_SETSIZE (drop (selectIterator ex_many) (asyncSocketList ex_many)) = [1..<1025]"
proof -
  have l: "asyncSocketList ex_many = [1..<1501]"
    by (simp only: ex_many_def engine.select_convs)
  have c: "selectIterator ex_many = 0"
    by (simp only: ex_many_def engine.select_convs)
  have "take 1024 [1..<1501] = [1..<1 + (1024 :: nat)]"
    by (rule take_upt) simp
  moreover have "1 + (1024 :: nat) = 1025"
    by simp
  ultimately have "take 1024 [1..<1501] = [1..<(1025 :: nat)]"
    by (simp only:)
  then show ?thesis
    by (simp only: l c drop_0 FD_SETSIZE_def)
qed

lemma ex_many_handles:
  "inj_on (handle_of (memory ex_many)) (set (asyncSocketList ex_many))"
proof (rule inj_onI)
  fix p q :: nat
  assume "p \<in> set (asyncSocketList ex_many)" and "q \<in> set (asyncSocketList ex_many)"
    and eq: "handle_of (memory ex_many) p = handle_of (memory ex_many) q"
  then have "p \<in> {1..<1501}" and "q \<in> {1..<1501}"
    by (simp_all only: ex_many_def engine.select_convs set_upt)
  then have p: "1 \<le> p" "p \<le> 1500" and q: "1 \<le> q" "q \<le> 1500"
    by simp_all
  from p q eq have "(of_nat p :: SOCKET) = of_nat q"
    by (simp add: handle_of_def ex_many_def)
  moreover from p q have "p < 2 ^ 64" and "q < 2 ^ 64"
    by simp_all
  ultimately show "p = q"
    by (simp only: handle_of_nat_inj)
qed

text \<open>
  C3 (amended). The dispatch keeps no mapping from handles to connections: for each handle
  that \<open>select\<close> left in the set, in turn, it scans the whole of asyncSocketList and calls
  back every entry whose RawSocket is the handle. When the registered sockets hold
  pairwise different handles, and \<open>select\<close> leaves each handle at most once and only
  handles of the batch, then the sockets called are exactly the sockets of this cycle's
  batch whose handle was reported readable, and no handle is dispatched more than once.
\<close>

theorem dispatch_rescans_list:
  assumes run: "SAL_Socket_CallbackWorker_cycle env s = Inr (readSet, ds, s')"
  shows "map invoked_on ds =
           concat (map (\<lambda>fd. filter (\<lambda>p. handle_of (memory s) p = fd) (asyncSocketList s))
                       (select_leaves env readSet)) \<and>
         (registrations_valid s \<longrightarrow>
          inj_on (handle_of (memory s)) (set (asyncSocketList s)) \<longrightarrow>
          distinct (select_leaves env readSet) \<longrightarrow>
          set (select_leaves env readSet) \<subseteq> set readSet \<longrightarrow>
            set (map invoked_on ds) =
              {p \<in> set (take FD_SETSIZE (drop (selectIterator s) (asyncSocketList s))).
                 handle_of (memory s) p \<in> set (select_leaves env readSet)} \<and>
            (\<forall>fd. length (filter (\<lambda>d. handle_of (memory s) (invoked_on d) = fd) ds) \<le> 1))"
proof (intro conjI impI)
  let ?h = "handle_of (memory s)" and ?l = "asyncSocketList s"
  let ?batch = "take FD_SETSIZE (drop (selectIterator s) ?l)"
  from cycle_dispatch [OF run] obtain n where
    "dispatch env (memory s) ?l (select_leaves env readSet) 0 = Inr (ds, n)"
    by blast
  from dispatch_Inr [OF this] show
    who: "map invoked_on ds =
           concat (map (\<lambda>fd. filter (\<lambda>p. ?h p = fd) ?l) (select_leaves env readSet))"
    by (rule conjunct1 [OF conjunct2])
  assume valid: "registrations_valid s"
    and inj: "inj_on ?h (set ?l)"
    and dist: "distinct (select_leaves env readSet)"
    and sub: "set (select_leaves env readSet) \<subseteq> set readSet"
  from cycle_valid [OF valid, of env] run have
    "readSet = fold (\<lambda>p. FD_SET (?h p)) ?batch []"
    by auto
  with batch_fold_empty [of ?h "drop (selectIterator s) ?l"] have
    rs: "set readSet = ?h ` set ?batch"
    by simp
  have batch_l: "q \<in> set ?l" if "q \<in> set ?batch" for q
    using that by (meson in_set_dropD in_set_takeD)
  have in_batch: "p \<in> set ?batch" if "p \<in> set (map invoked_on ds)" for p
  proof -
    from that have p: "p \<in> set ?l" and "?h p \<in> set (select_leaves env readSet)"
      unfolding who rescan_members by auto
    with sub rs obtain q where q: "q \<in> set ?batch" and "?h q = ?h p"
      by auto
    moreover from q have "q \<in> set ?l"
      by (rule batch_l)
    ultimately have "q = p" using inj p by (auto dest: inj_onD)
    with q show ?thesis by simp
  qed
  show "set (map invoked_on ds) =
          {p \<in> set ?batch. ?h p \<in> set (select_leaves env readSet)}"
  proof (intro equalityI subsetI)
    fix p assume m: "p \<in> set (map invoked_on ds)"
    then have "?h p \<in> set (select_leaves env readSet)"
      unfolding who rescan_members by simp
    with in_batch [OF m] show "p \<in> {p \<in> set ?batch. ?h p \<in> set (select_leaves env readSet)}"
      by simp
  next
    fix p assume "p \<in> {p \<in> set ?batch. ?h p \<in> set (select_leaves env readSet)}"
    then have "p \<in> set ?batch" and r: "?h p \<in> set (select_leaves env readSet)"
      by simp_all
    then have "p \<in> set ?l"
      by (simp only: batch_l)
    with r show "p \<in> set (map invoked_on ds)"
      unfolding who rescan_members by simp
  qed
  from valid have dl: "distinct ?l"
    by (simp add: registrations_valid_def)
  show "\<forall>fd. length (filter (\<lambda>d. ?h (invoked_on d) = fd) ds) \<le> 1"
  proof
    fix fd
    have "length (filter (\<lambda>d. ?h (invoked_on d) = fd) ds) =
          length (filter (\<lambda>p. ?h p = fd) (map invoked_on ds))"
      by (simp add: filter_map comp_def)
    also have "\<dots> = length (if fd \<in> set (select_leaves env readSet)
                            then filter (\<lambda>p. ?h p = fd) ?l else [])"
      unfolding who by (simp only: filter_rescan [OF dist])
    also have "\<dots> \<le> 1"
      using filter_handle_at_most_one [OF dl inj, of fd] by simp
    finally show "length (filter (\<lambda>d. ?h (invoked_on d) = fd) ds) \<le> 1" .
  qed
qed

theorem dispatch_rescans_list_witness:
  "registrations_valid ex_many \<and>
   inj_on (handle_of (memory ex_many)) (set (asyncSocketList ex_many)) \<and>
   \<not> isl (SAL_Socket_CallbackWorker_cycle (ex_platform 5) ex_many) \<and>
   distinct (select_leaves (ex_platform 5)
     (fst (projr (SAL_Socket_CallbackWorker_cycle (ex_platform 5) ex_many)))) \<and>
   set (select_leaves (ex_platform 5)
     (fst (projr (SAL_Socket_CallbackWorker_cycle (ex_platform 5) ex_many)))) \<subseteq>
     set (fst (projr (SAL_Socket_CallbackWorker_cycle (ex_platform 5) ex_many))) \<and>
   set (map invoked_on
     (fst (snd (projr (SAL_Socket_CallbackWorker_cycle (ex_platform 5) ex_many))))) =
     {1..<1025} \<and>
   1025 \<in> set (asyncSocketList ex_many) \<and>
   handle_of (memory ex_many) 7 = 7 \<and>
   length (filter (\<lambda>d. handle_of (memory ex_many) (invoked_on d) = 7)
     (fst (snd (projr (SAL_Socket_CallbackWorker_cycle (ex_platform 5) ex_many))))) = 1"
proof -
  let ?E = "ex_platform 5"
  let ?h = "handle_of (memory ex_many)"
  let ?l = "asyncSocketList ex_many"
  let ?batch = "take FD_SETSIZE (drop (selectIterator ex_many) ?l)"
  let ?readSet = "fold (\<lambda>p. FD_SET (?h p)) ?batch []"
  from cycle_valid [OF ex_many_valid, of ?E] obtain ds s' where
    run: "SAL_Socket_CallbackWorker_cycle ?E ex_many = Inr (?readSet, ds, s')"
    by blast
  have leaves: "select_leaves ?E ?readSet = ?readSet"
    by (simp only: ex_platform_def platform.select_convs)
  have "distinct ?readSet"
    by (rule fold_FD_SET_distinct) simp
  then have dist: "distinct (select_leaves ?E ?readSet)"
    by (simp only: leaves)
  have sub: "set (select_leaves ?E ?readSet) \<subseteq> set ?readSet"
    by (simp only: leaves subset_refl)
  from batch_fold_empty [of ?h "drop (selectIterator ex_many) ?l"]
  have rs: "set ?readSet = ?h ` set ?batch"
    by (rule conjunct1)
  note cud = dispatch_rescans_list [OF run, THEN conjunct2, rule_format,
      OF ex_many_valid ex_many_handles dist sub]
  from cud have
    "set (map invoked_on ds) = {p \<in> set ?batch. ?h p \<in> set (select_leaves ?E ?readSet)}"
    by (rule conjunct1)
  also have "\<dots> = {p \<in> set ?batch. ?h p \<in> ?h ` set ?batch}"
    by (simp only: leaves rs)
  also have "\<dots> = set ?batch"
    by blast
  also have "\<dots> = {1..<1025}"
    by (simp only: ex_many_first_batch set_upt)
  finally have who: "set (map invoked_on ds) = {1..<1025}" .
  have h7: "?h 7 = 7"
    by (simp add: handle_of_def ex_many_def)
  from cud have "length (filter (\<lambda>d. ?h (invoked_on d) = 7) ds) \<le> 1"
    by (simp only:)
  moreover have "filter (\<lambda>d. ?h (invoked_on d) = 7) ds \<noteq> []"
  proof -
    have "(7 :: nat) \<in> {1..<1025}"
      by simp
    then have "7 \<in> set (map invoked_on ds)"
      by (simp only: who)
    then obtain d where "d \<in> set ds" and "invoked_on d = 7"
      by auto
    with h7 have "d \<in> set (filter (\<lambda>d. ?h (invoked_on d) = 7) ds)"
      by simp
    then show ?thesis
      by (metis empty_iff empty_set)
  qed
  then have "0 < length (filter (\<lambda>d. ?h (invoked_on d) = 7) ds)"
    unfolding length_greater_0_conv .
  ultimately have once: "length (filter (\<lambda>d. ?h (invoked_on d) = 7) ds) = 1"
    by (rule_tac order_antisym) (simp_all only: One_nat_def Suc_le_eq)
  have beyond: "1025 \<in> set ?l"
    unfolding ex_many_def engine.select_convs set_upt by simp
  have r: "\<not> isl (SAL_Socket_CallbackWorker_cycle ?E ex_many)"
    and p1: "fst (projr (SAL_Socket_CallbackWorker_cycle ?E ex_many)) = ?readSet"
    and p2: "fst (snd (projr (SAL_Socket_CallbackWorker_cycle ?E ex_many))) = ds"
    by (simp_all only: run sum.sel sum.disc fst_conv snd_conv not_False_eq_True)
  show ?thesis
    unfolding p1 p2
    using ex_many_valid ex_many_handles r dist sub who beyond h7 once
    by (intro conjI)
qed

subsection \<open>Consecutive cycles\<close>

lemma Run_batches:
  assumes "registrations_valid s" and "asyncWorkerRunning s"
    and "envs \<noteq> [] \<longrightarrow> selectIterator s = c * FD_SETSIZE"
    and "c + length envs \<le> length (asyncSocketList s) div FD_SETSIZE + 1"
  shows "\<exists>s'. SAL_Socket_CallbackWorker_Run envs s =
           Inr (map (\<lambda>k. fold (\<lambda>p. FD_SET (handle_of (memory s) p))
                           (take FD_SETSIZE (drop ((c + k) * FD_SETSIZE) (asyncSocketList s))) [])
                    [0..<length envs], s')"
  using assms
proof (induction envs arbitrary: s c)
  case Nil
  then show ?case by simp
next
  case (Cons env envs)
  let ?l = "asyncSocketList s" and ?F = FD_SETSIZE
  let ?batch = "\<lambda>k. fold (\<lambda>p. FD_SET (handle_of (memory s) p))
                        (take ?F (drop (k * ?F) ?l)) []"
  let ?s1 = "s\<lparr>selectIterator :=
               (if length (drop (selectIterator s) ?l) < ?F then 0
                else selectIterator s + ?F)\<rparr>"
  from Cons.prems have cur: "selectIterator s = c * ?F" by simp
  from cycle_valid [OF Cons.prems(1), of env] obtain ds where
    cyc: "SAL_Socket_CallbackWorker_cycle env s = Inr (?batch c, ds, ?s1)"
    by (auto simp: cur)
  have valid1: "registrations_valid ?s1"
    using Cons.prems(1) by (simp add: registrations_valid_def)
  have running1: "asyncWorkerRunning ?s1"
    using Cons.prems(2) by simp
  have cur1: "envs \<noteq> [] \<longrightarrow> selectIterator ?s1 = Suc c * ?F"
  proof
    assume "envs \<noteq> []"
    then have "1 \<le> length envs" by (cases envs) simp_all
    moreover from Cons.prems(4) have "c + Suc (length envs) \<le> length ?l div ?F + 1" by simp
    ultimately have "Suc c \<le> length ?l div ?F" by linarith
    then have "Suc c * ?F \<le> length ?l"
      using FD_SETSIZE_pos by (simp add: less_eq_div_iff_mult_less_eq)
    then have "\<not> length (drop (c * ?F) ?l) < ?F" by simp
    then show "selectIterator ?s1 = Suc c * ?F" by (simp add: cur)
  qed
  have bound1: "Suc c + length envs \<le> length (asyncSocketList ?s1) div ?F + 1"
    using Cons.prems(4) by simp
  from Cons.IH [OF valid1 running1 cur1 bound1] obtain s' where
    rest: "SAL_Socket_CallbackWorker_Run envs ?s1 =
             Inr (map (\<lambda>k. ?batch (Suc c + k)) [0..<length envs], s')"
    by auto
  have "map (\<lambda>k. ?batch (c + k)) [0..<length (env # envs)] =
        ?batch c # map (\<lambda>k. ?batch (Suc c + k)) [0..<length envs]"
    by (simp add: upt_conv_Cons map_Suc_upt [symmetric] del: upt_Suc)
  with cyc rest Cons.prems(2) show ?case
    by simp
qed

lemma Run_total:
  assumes "registrations_valid s" and "asyncWorkerRunning s"
  shows "\<exists>bs s'. SAL_Socket_CallbackWorker_Run envs s = Inr (bs, s') \<and>
           length bs = length envs \<and>
           memory s' = memory s \<and> asyncSocketList s' = asyncSocketList s \<and>
           asyncWorkerRunning s'"
  using assms
proof (induction envs arbitrary: s)
  case Nil
  then show ?case by simp
next
  case (Cons env envs)
  from cycle_valid [OF Cons.prems(1), of env] obtain readSet ds s1 where
    cyc: "SAL_Socket_CallbackWorker_cycle env s = Inr (readSet, ds, s1)"
    by blast
  from cycle_memory [OF cyc] have
    same: "memory s1 = memory s" "asyncSocketList s1 = asyncSocketList s"
    by simp_all
  from cyc Cons.prems(2) have run1: "asyncWorkerRunning s1"
    by (auto simp: SAL_Socket_CallbackWorker_cycle_def Let_def split: sum.splits prod.splits)
  from Cons.prems(1) same have "registrations_valid s1"
    by (simp add: registrations_valid_def)
  from Cons.IH [OF this run1] obtain bs s' where
    "SAL_Socket_CallbackWorker_Run envs s1 = Inr (bs, s')" and "length bs = length envs" and
    "memory s' = memory s1" and "asyncSocketList s' = asyncSocketList s1" and
    "asyncWorkerRunning s'"
    by blast
  with Cons.prems(2) cyc same show ?case by simp
qed

lemma Run_append:
  assumes "SAL_Socket_CallbackWorker_Run envs1 s = Inr (bs1, s1)"
    and "SAL_Socket_CallbackWorker_Run envs2 s1 = Inr (bs2, s2)"
    and "asyncWorkerRunning s1"
  shows "SAL_Socket_CallbackWorker_Run (envs1 @ envs2) s = Inr (bs1 @ bs2, s2)"
  using assms
proof (induction envs1 arbitrary: s bs1)
  case Nil
  then show ?case by simp
next
  case (Cons env envs1)
  show ?case
  proof (cases "asyncWorkerRunning s")
    case False
    with Cons.prems(1) have "s1 = s" by simp
    with False Cons.prems(3) show ?thesis by simp
  next
    case True
    with Cons.prems(1) obtain readSet ds s0 bs0 where
      cyc: "SAL_Socket_CallbackWorker_cycle env s = Inr (readSet, ds, s0)" and
      rest: "SAL_Socket_CallbackWorker_Run envs1 s0 = Inr (bs0, s1)" and
      bs1: "bs1 = readSet # bs0"
      by (auto split: sum.splits prod.splits)
    from Cons.IH [OF rest Cons.prems(2,3)] True cyc bs1 show ?thesis
      by simp
  qed
qed

lemma Run_to_head:
  assumes "registrations_valid s" and "asyncWorkerRunning s"
    and "length (drop (selectIterator s) (asyncSocketList s)) div FD_SETSIZE < length envs"
  shows "\<exists>r bs s'. r \<le> length envs \<and>
           r \<le> length (drop (selectIterator s) (asyncSocketList s)) div FD_SETSIZE + 1 \<and>
           SAL_Socket_CallbackWorker_Run (take r envs) s = Inr (bs, s') \<and> length bs = r \<and>
           selectIterator s' = 0 \<and> memory s' = memory s \<and>
           asyncSocketList s' = asyncSocketList s \<and> asyncWorkerRunning s'"
  using assms
proof (induction envs arbitrary: s)
  case Nil
  then show ?case by simp
next
  case (Cons env envs)
  let ?l = "asyncSocketList s" and ?c = "selectIterator s" and ?F = FD_SETSIZE
  let ?d = "length (drop ?c ?l)"
  let ?s1 = "s\<lparr>selectIterator := (if ?d < ?F then 0 else ?c + ?F)\<rparr>"
  from cycle_valid [OF Cons.prems(1), of env] obtain readSet ds where
    cyc: "SAL_Socket_CallbackWorker_cycle env s = Inr (readSet, ds, ?s1)"
    by blast
  show ?case
  proof (cases "?d < ?F")
    case True
    with cyc Cons.prems(2) have
      "SAL_Socket_CallbackWorker_Run (take 1 (env # envs)) s = Inr ([readSet], ?s1)"
      by simp
    moreover from True have "selectIterator ?s1 = 0" by simp
    moreover have "memory ?s1 = memory s" "asyncSocketList ?s1 = ?l" "asyncWorkerRunning ?s1"
      using Cons.prems(2) by simp_all
    moreover have "(1::nat) \<le> length (env # envs)" "(1::nat) \<le> ?d div ?F + 1" "length [readSet] = 1"
      by simp_all
    ultimately show ?thesis by blast
  next
    case False
    then have big: "?F \<le> ?d" by simp
    have valid1: "registrations_valid ?s1"
      using Cons.prems(1) by (simp add: registrations_valid_def)
    have running1: "asyncWorkerRunning ?s1"
      using Cons.prems(2) by simp
    have d1: "length (drop (selectIterator ?s1) (asyncSocketList ?s1)) = ?d - ?F"
      using False by simp
    from le_div_geq [OF FD_SETSIZE_pos big] have div1: "(?d - ?F) div ?F + 1 = ?d div ?F"
      by simp
    with Cons.prems(3) have
      "length (drop (selectIterator ?s1) (asyncSocketList ?s1)) div ?F < length envs"
      unfolding d1 by simp
    from Cons.IH [OF valid1 running1 this] obtain r bs s' where
      r: "r \<le> length envs" and
      rb: "r \<le> length (drop (selectIterator ?s1) (asyncSocketList ?s1)) div ?F + 1" and
      run: "SAL_Socket_CallbackWorker_Run (take r envs) ?s1 = Inr (bs, s')" and
      len: "length bs = r" and
      head: "selectIterator s' = 0" and
      same: "memory s' = memory ?s1" "asyncSocketList s' = asyncSocketList ?s1" and
      running': "asyncWorkerRunning s'"
      by blast
    from rb have rb': "Suc r \<le> ?d div ?F + 1"
      unfolding d1 using div1 by simp
    from cyc run Cons.prems(2) have
      "SAL_Socket_CallbackWorker_Run (take (Suc r) (env # envs)) s = Inr (readSet # bs, s')"
      by simp
    moreover have "length (readSet # bs) = Suc r" using len by simp
    moreover have "Suc r \<le> length (env # envs)" using r by simp
    moreover have "memory s' = memory s" "asyncSocketList s' = ?l"
      using same by simp_all
    ultimately show ?thesis using rb' head running' by blast
  qed
qed

lemma slices_cover:
  assumes "p \<in> set l"
  shows "\<exists>k < length l div FD_SETSIZE + 1. p \<in> set (take FD_SETSIZE (drop (k * FD_SETSIZE) l))"
proof -
  let ?F = FD_SETSIZE
  from assms obtain j where j: "j < length l" and p: "l ! j = p"
    by (auto simp: in_set_conv_nth)
  let ?k = "j div ?F"
  have "?k \<le> length l div ?F"
    using j by (simp add: div_le_mono)
  then have k: "?k < length l div ?F + 1" by simp
  have kF: "?k * ?F \<le> j" by simp
  have eq: "?k * ?F + j mod ?F = j" by simp
  have small: "j mod ?F < ?F" using FD_SETSIZE_pos by simp
  from kF j have "?k * ?F \<le> length l" by linarith
  then have "drop (?k * ?F) l ! (j mod ?F) = l ! (?k * ?F + j mod ?F)"
    by (rule nth_drop)
  with eq p have at: "drop (?k * ?F) l ! (j mod ?F) = p" by simp
  from eq j kF have "j mod ?F < length l - ?k * ?F" by linarith
  then have inside: "j mod ?F < length (drop (?k * ?F) l)" by simp
  have "take ?F (drop (?k * ?F) l) ! (j mod ?F) = p"
    using small at by simp
  moreover have "j mod ?F < length (take ?F (drop (?k * ?F) l))"
    using small inside by simp
  ultimately have "p \<in> set (take ?F (drop (?k * ?F) l))"
    by (metis nth_mem)
  with k show ?thesis by blast
qed

text \<open>
  C6. Take a state with valid registrations in which the worker runs, and let the
  registration list stay as it is. Each cycle returns; its batch holds at most 1024
  handles, those of the entries from the saved cursor on, up to 1024 of them or to the
  end of the list; the cursor is saved behind them, or back at the head when the end was
  reached. From the head, cycle \<open>k\<close> queries exactly the entries \<open>1024 k\<close> to
  \<open>1024 k + 1023\<close>. From any cursor, every registered socket's handle is in the batch of
  one of the next \<open>2 (n div 1024 + 1)\<close> cycles, \<open>n\<close> the length of the list.
\<close>

theorem batches_cover_registrations:
  assumes valid: "registrations_valid s" and running: "asyncWorkerRunning s"
  shows
    "(\<forall>env. \<exists>readSet ds s'.
        SAL_Socket_CallbackWorker_cycle env s = Inr (readSet, ds, s') \<and>
        length readSet \<le> FD_SETSIZE \<and>
        set readSet = handle_of (memory s) `
          set (take FD_SETSIZE (drop (selectIterator s) (asyncSocketList s))) \<and>
        selectIterator s' =
          (if length (drop (selectIterator s) (asyncSocketList s)) < FD_SETSIZE then 0
           else selectIterator s + FD_SETSIZE)) \<and>
     (\<forall>envs. selectIterator s = 0 \<longrightarrow>
        length envs = length (asyncSocketList s) div FD_SETSIZE + 1 \<longrightarrow>
        (\<exists>batches s'. SAL_Socket_CallbackWorker_Run envs s = Inr (batches, s') \<and>
           length batches = length envs \<and>
           (\<forall>k < length batches.
              set (batches ! k) = handle_of (memory s) `
                set (take FD_SETSIZE (drop (k * FD_SETSIZE) (asyncSocketList s)))))) \<and>
     (\<forall>envs. length envs = 2 * (length (asyncSocketList s) div FD_SETSIZE + 1) \<longrightarrow>
        (\<exists>batches s'. SAL_Socket_CallbackWorker_Run envs s = Inr (batches, s') \<and>
           length batches = length envs \<and>
           (\<forall>p \<in> set (asyncSocketList s). \<exists>k < length batches.
              handle_of (memory s) p \<in> set (batches ! k))))"
proof -
  let ?l = "asyncSocketList s" and ?F = FD_SETSIZE and ?h = "handle_of (memory s)"
  let ?K = "length ?l div ?F + 1"
  let ?batch = "\<lambda>k. fold (\<lambda>p. FD_SET (?h p)) (take ?F (drop (k * ?F) ?l)) []"
  have one: "\<exists>readSet ds s'.
        SAL_Socket_CallbackWorker_cycle env s = Inr (readSet, ds, s') \<and>
        length readSet \<le> ?F \<and>
        set readSet = ?h ` set (take ?F (drop (selectIterator s) ?l)) \<and>
        selectIterator s' =
          (if length (drop (selectIterator s) ?l) < ?F then 0 else selectIterator s + ?F)" for env
  proof -
    from cycle_valid [OF valid, of env] obtain ds where
      "SAL_Socket_CallbackWorker_cycle env s =
         Inr (fold (\<lambda>p. FD_SET (?h p)) (take ?F (drop (selectIterator s) ?l)) [], ds,
              s\<lparr>selectIterator :=
                  (if length (drop (selectIterator s) ?l) < ?F then 0
                   else selectIterator s + ?F)\<rparr>)"
      by blast
    with batch_fold_empty [of ?h "drop (selectIterator s) ?l"] show ?thesis
      by (intro exI conjI) (assumption, simp_all)
  qed
  have from_head: "\<exists>batches s'. SAL_Socket_CallbackWorker_Run envs s = Inr (batches, s') \<and>
           length batches = length envs \<and>
           (\<forall>k < length batches. set (batches ! k) = ?h ` set (take ?F (drop (k * ?F) ?l)))"
    if start: "selectIterator s = 0" and cycles: "length envs = ?K" for envs :: "platform list"
  proof -
    from start have cur: "envs \<noteq> [] \<longrightarrow> selectIterator s = 0 * ?F" by simp
    from cycles have bound: "0 + length envs \<le> ?K" by simp
    from Run_batches [OF valid running cur bound] obtain s' where
      run: "SAL_Socket_CallbackWorker_Run envs s = Inr (map ?batch [0..<length envs], s')"
      by auto
    have "set (map ?batch [0..<length envs] ! k) = ?h ` set (take ?F (drop (k * ?F) ?l))"
      if "k < length (map ?batch [0..<length envs])" for k
      using that batch_fold_empty [of ?h "drop (k * ?F) ?l"] by simp
    with run show ?thesis by (intro exI conjI) (assumption, simp, blast)
  qed
  have from_anywhere: "\<exists>batches s'. SAL_Socket_CallbackWorker_Run envs s = Inr (batches, s') \<and>
           length batches = length envs \<and>
           (\<forall>p \<in> set ?l. \<exists>k < length batches. ?h p \<in> set (batches ! k))"
    if cycles: "length envs = 2 * ?K" for envs :: "platform list"
  proof -
    have "length (drop (selectIterator s) ?l) \<le> length ?l" by simp
    then have dK: "length (drop (selectIterator s) ?l) div ?F + 1 \<le> ?K"
      by (simp add: div_le_mono)
    then have "length (drop (selectIterator s) ?l) div ?F < ?K"
      by (simp only: Suc_eq_plus1 [symmetric] Suc_le_eq)
    also have "?K \<le> length envs"
      by (simp only: cycles) simp
    finally have "length (drop (selectIterator s) ?l) div ?F < length envs" .
    from Run_to_head [OF valid running this] obtain r bs1 s1 where
      r: "r \<le> length (drop (selectIterator s) ?l) div ?F + 1" and
      run1: "SAL_Socket_CallbackWorker_Run (take r envs) s = Inr (bs1, s1)" and
      len1: "length bs1 = r" and head: "selectIterator s1 = 0" and
      same1: "memory s1 = memory s" "asyncSocketList s1 = ?l" and
      running1: "asyncWorkerRunning s1"
      by blast
    from r dK have rK: "r \<le> ?K" by (rule order_trans)
    from valid same1 have valid1: "registrations_valid s1"
      by (simp add: registrations_valid_def)
    let ?envs2 = "take ?K (drop r envs)" and ?envs3 = "drop ?K (drop r envs)"
    from cycles rK have len_envs2: "length ?envs2 = ?K" by simp
    from head have cur: "?envs2 \<noteq> [] \<longrightarrow> selectIterator s1 = 0 * ?F" by simp
    from len_envs2 same1 have bound: "0 + length ?envs2 \<le> length (asyncSocketList s1) div ?F + 1"
      by simp
    from Run_batches [OF valid1 running1 cur bound] obtain s2' where
      run2': "SAL_Socket_CallbackWorker_Run ?envs2 s1 = Inr (map ?batch [0..<?K], s2')"
      using same1 len_envs2 by auto
    from Run_total [OF valid1 running1, of ?envs2] obtain bs2 s2 where
      run2: "SAL_Socket_CallbackWorker_Run ?envs2 s1 = Inr (bs2, s2)" and
      len2: "length bs2 = length ?envs2" and
      same2: "memory s2 = memory s1" "asyncSocketList s2 = asyncSocketList s1" and
      running2: "asyncWorkerRunning s2"
      by blast
    from run2 run2' have bs2: "bs2 = map ?batch [0..<?K]" by simp
    from valid1 same2 have valid2: "registrations_valid s2"
      by (simp add: registrations_valid_def)
    from Run_total [OF valid2 running2, of ?envs3] obtain bs3 s3 where
      run3: "SAL_Socket_CallbackWorker_Run ?envs3 s2 = Inr (bs3, s3)" and
      len3: "length bs3 = length ?envs3"
      by blast
    from Run_append [OF run2 run3 running2] have
      "SAL_Socket_CallbackWorker_Run (?envs2 @ ?envs3) s1 = Inr (bs2 @ bs3, s3)" .
    from Run_append [OF run1 this running1] have
      whole: "SAL_Socket_CallbackWorker_Run (take r envs @ ?envs2 @ ?envs3) s =
        Inr (bs1 @ bs2 @ bs3, s3)" .
    have split: "take r envs @ ?envs2 @ ?envs3 = envs"
      by (simp only: append_take_drop_id)
    have len: "length (bs1 @ bs2 @ bs3) = length envs"
    proof -
      have "length (bs1 @ bs2 @ bs3) = length (take r envs) + length ?envs2 + length ?envs3"
        using len1 len2 len3 cycles rK by simp
      also have "\<dots> = length (take r envs @ ?envs2 @ ?envs3)" by simp
      finally show ?thesis by (simp only: split)
    qed
    have cover: "\<exists>k < length (bs1 @ bs2 @ bs3). ?h p \<in> set ((bs1 @ bs2 @ bs3) ! k)"
      if "p \<in> set ?l" for p
    proof -
      from slices_cover [OF that] obtain k where
        k: "k < ?K" and "p \<in> set (take ?F (drop (k * ?F) ?l))" by blast
      with batch_fold_empty [of ?h "drop (k * ?F) ?l"] have "?h p \<in> set (?batch k)"
        by blast
      moreover from k have "bs2 ! k = ?batch k"
        by (simp add: bs2 del: upt_Suc)
      ultimately have in2: "?h p \<in> set (bs2 ! k)" by simp
      from k have k2: "k < length bs2" by (simp add: bs2 del: upt_Suc)
      then have at: "(bs1 @ bs2 @ bs3) ! (length bs1 + k) = bs2 ! k"
        by (simp add: nth_append)
      from k2 have "length bs1 + k < length (bs1 @ bs2 @ bs3)" by simp
      moreover from in2 at have "?h p \<in> set ((bs1 @ bs2 @ bs3) ! (length bs1 + k))"
        by simp
      ultimately show ?thesis by (rule_tac x = "length bs1 + k" in exI) (rule conjI)
    qed
    from whole have w: "SAL_Socket_CallbackWorker_Run envs s = Inr (bs1 @ bs2 @ bs3, s3)"
      by (simp only: split)
    have "SAL_Socket_CallbackWorker_Run envs s = Inr (bs1 @ bs2 @ bs3, s3) \<and>
        length (bs1 @ bs2 @ bs3) = length envs \<and>
        (\<forall>p \<in> set ?l. \<exists>k < length (bs1 @ bs2 @ bs3). ?h p \<in> set ((bs1 @ bs2 @ bs3) ! k))"
      using w len cover by (intro conjI ballI)
    then show ?thesis
      by (rule_tac x = "bs1 @ bs2 @ bs3" in exI, rule_tac x = s3 in exI)
  qed
  show ?thesis
  proof (intro conjI allI impI)
    fix env
    show "\<exists>readSet ds s'.
        SAL_Socket_CallbackWorker_cycle env s = Inr (readSet, ds, s') \<and>
        length readSet \<le> ?F \<and>
        set readSet = ?h ` set (take ?F (drop (selectIterator s) ?l)) \<and>
        selectIterator s' =
          (if length (drop (selectIterator s) ?l) < ?F then 0 else selectIterator s + ?F)"
      by (rule one)
  next
    fix envs :: "platform list"
    assume "selectIterator s = 0" and "length envs = ?K"
    then show "\<exists>batches s'. SAL_Socket_CallbackWorker_Run envs s = Inr (batches, s') \<and>
           length batches = length envs \<and>
           (\<forall>k < length batches. set (batches ! k) = ?h ` set (take ?F (drop (k * ?F) ?l)))"
      by (rule from_head)
  next
    fix envs :: "platform list"
    assume "length envs = 2 * ?K"
    then show "\<exists>batches s'. SAL_Socket_CallbackWorker_Run envs s = Inr (batches, s') \<and>
           length batches = length envs \<and>
           (\<forall>p \<in> set ?l. \<exists>k < length batches. ?h p \<in> set (batches ! k))"
      by (rule from_anywhere)
  qed
qed

theorem batches_cover_registrations_witness:
  "registrations_valid ex_many \<and> asyncWorkerRunning ex_many \<and> selectIterator ex_many = 0 \<and>
   length [ex_platform 5, ex_platform 5] = length (asyncSocketList ex_many) div FD_SETSIZE + 1 \<and>
   \<not> isl (SAL_Socket_CallbackWorker_Run [ex_platform 5, ex_platform 5] ex_many) \<and>
   length (fst (projr (SAL_Socket_CallbackWorker_Run [ex_platform 5, ex_platform 5] ex_many))) = 2 \<and>
   handle_of (memory ex_many) 1500 \<in>
     set (fst (projr (SAL_Socket_CallbackWorker_Run [ex_platform 5, ex_platform 5] ex_many)) ! 1)"
proof -
  let ?envs = "[ex_platform 5, ex_platform 5]"
  have running: "asyncWorkerRunning ex_many" and start: "selectIterator ex_many = 0"
    by (simp_all add: ex_many_def)
  have cycles: "length ?envs = length (asyncSocketList ex_many) div FD_SETSIZE + 1"
    by (simp add: ex_many_def FD_SETSIZE_def)
  from batches_cover_registrations [OF ex_many_valid running, THEN conjunct2, THEN conjunct1,
      rule_format, OF start cycles]
  obtain batches s' where
    run: "SAL_Socket_CallbackWorker_Run ?envs ex_many = Inr (batches, s')" and
    len: "length batches = length ?envs" and
    each: "\<forall>k < length batches.
              set (batches ! k) =
                handle_of (memory ex_many) `
                  set (take FD_SETSIZE (drop (k * FD_SETSIZE) (asyncSocketList ex_many)))"
    by blast
  from len each have
    "set (batches ! 1) =
       handle_of (memory ex_many) ` set (take FD_SETSIZE (drop (1 * FD_SETSIZE) (asyncSocketList ex_many)))"
    by simp
  moreover have "1500 \<in> set (take FD_SETSIZE (drop (1 * FD_SETSIZE) (asyncSocketList ex_many)))"
    by (simp add: ex_many_def FD_SETSIZE_def)
  ultimately have "handle_of (memory ex_many) 1500 \<in> set (batches ! 1)"
    by blast
  with run len ex_many_valid running start cycles show ?thesis
    by simp
qed

section \<open>Closing\<close>

lemma Close_Inr:
  assumes "SAL_Socket_Close s p = Inr s'"
  shows "\<exists>s1 sk. SAL_Socket_UnsetSocketCallback s p = Inr s1 \<and> memory s1 p = Some sk \<and>
           s' = s1\<lparr>memory := (memory s1)(p \<mapsto> sk\<lparr>Connected := False, RawSocket := INVALID_SOCKET\<rparr>)\<rparr>"
  using assms
  by (auto simp: SAL_Socket_Close_def split: if_splits sum.splits option.splits)

lemma Unset_clears:
  assumes "SAL_Socket_UnsetSocketCallback s p = Inr s1"
  shows "\<exists>sk. memory s1 p = Some sk \<and> ReadCallback sk = NULL"
proof -
  from Unset_Inr [OF assms] obtain sk where
    sk: "memory s p = Some sk" and
    s1: "if ReadCallback sk \<noteq> NULL
       then s1 = s\<lparr>memory := (memory s)(p \<mapsto> sk\<lparr>ReadCallback := NULL, ReadCallbackState := NULL\<rparr>),
                   asyncSocketList := remove1 p (asyncSocketList s)\<rparr>
       else s1 = s"
    by blast
  show ?thesis
  proof (cases "ReadCallback sk \<noteq> NULL")
    case True
    with s1 show ?thesis by simp
  next
    case False
    with s1 sk show ?thesis by simp
  qed
qed

lemma Unset_valid_not_registered:
  assumes "registrations_valid s" and "SAL_Socket_UnsetSocketCallback s p = Inr s1"
  shows "p \<notin> set (asyncSocketList s1)"
proof -
  from Unset_Inr [OF assms(2)] obtain sk where
    sk: "memory s p = Some sk" and
    s1: "if ReadCallback sk \<noteq> NULL
       then s1 = s\<lparr>memory := (memory s)(p \<mapsto> sk\<lparr>ReadCallback := NULL, ReadCallbackState := NULL\<rparr>),
                   asyncSocketList := remove1 p (asyncSocketList s)\<rparr>
       else s1 = s"
    by blast
  show ?thesis
  proof (cases "ReadCallback sk \<noteq> NULL")
    case True
    with s1 assms(1) show ?thesis
      by (simp add: registrations_valid_def)
  next
    case False
    with s1 have "s1 = s" by simp
    moreover from assms(1) sk False have "p \<notin> set (asyncSocketList s)"
      by (auto simp: registrations_valid_def)
    ultimately show ?thesis by simp
  qed
qed

lemma Close_Connected_others:
  assumes "SAL_Socket_Close s p = Inr s'" and "memory s q = Some sk" and "q \<noteq> p"
  shows "memory s' q = Some sk"
proof -
  from Close_Inr [OF assms(1)] obtain s1 sk1 where
    u: "SAL_Socket_UnsetSocketCallback s p = Inr s1" and
    s': "s' = s1\<lparr>memory := (memory s1)(p \<mapsto> sk1\<lparr>Connected := False, RawSocket := INVALID_SOCKET\<rparr>)\<rparr>"
    by blast
  from Unset_Inr [OF u] assms(2,3) have "memory s1 q = Some sk"
    by (auto split: if_splits)
  with s' assms(3) show ?thesis by simp
qed

lemma api_step_Connected:
  assumes "api_step s c = Inr s'" and "c \<noteq> Call_Close p"
    and "memory s p = Some sk" and "Connected sk"
  shows "\<exists>sk'. memory s' p = Some sk' \<and> Connected sk'"
proof (cases c)
  case (Call_SetReadCallback q cb st)
  with assms(1) have "SAL_Socket_SetReadCallback s q cb st = Inr s'" by simp
  from Set_Inr [OF this] assms(3,4) show ?thesis
    by (cases "p = q") auto
next
  case (Call_UnsetSocketCallback q)
  with assms(1) have "SAL_Socket_UnsetSocketCallback s q = Inr s'" by simp
  from Unset_Inr [OF this] assms(3,4) show ?thesis
    by (cases "p = q") (auto split: if_splits)
next
  case (Call_Close q)
  with assms(1,2) have "SAL_Socket_Close s q = Inr s'" and "p \<noteq> q" by auto
  from Close_Connected_others [OF this(1) assms(3) this(2)] assms(4) show ?thesis by simp
next
  case Call_ClearCallbacks
  with assms show ?thesis
    by (auto simp: SAL_Socket_ClearCallbacks_def SAL_Socket_CallbackWorker_Shutdown_def)
next
  case (Call_WorkerCycle env)
  with assms(1) obtain readSet ds where
    "SAL_Socket_CallbackWorker_cycle env s = Inr (readSet, ds, s')"
    by (auto split: sum.splits)
  from cycle_memory [OF this] assms(3,4) show ?thesis by simp
qed

lemma api_run_Connected:
  assumes "api_run s cs = Inr s'" and "Call_Close p \<notin> set cs"
    and "memory s p = Some sk" and "Connected sk"
  shows "\<exists>sk'. memory s' p = Some sk' \<and> Connected sk'"
  using assms
proof (induction cs arbitrary: s sk)
  case Nil
  then show ?case by simp
next
  case (Cons c cs)
  from Cons.prems(1) obtain s1 where
    step: "api_step s c = Inr s1" and rest: "api_run s1 cs = Inr s'"
    by (auto split: sum.splits)
  from Cons.prems(2) have nc: "c \<noteq> Call_Close p" and ncs: "Call_Close p \<notin> set cs"
    by auto
  from api_step_Connected [OF step nc Cons.prems(3,4)] obtain sk1 where
    "memory s1 p = Some sk1" and "Connected sk1" by blast
  from Cons.IH [OF rest ncs this] show ?case .
qed

section \<open>States reached from the start\<close>

lemma at_start_valid: "at_start s \<Longrightarrow> registrations_valid s"
  by (simp add: at_start_def registrations_valid_def)

lemma Set_valid:
  assumes valid: "registrations_valid s" and run: "SAL_Socket_SetReadCallback s p cb st = Inr s'"
  shows "registrations_valid s'"
proof -
  let ?base = "if asyncWorkerRunning s then asyncSocketList s else []"
  from Set_Inr [OF run] obtain sk where
    nn: "cb \<noteq> NULL" and pn: "p \<noteq> NULL" and
    sk: "memory s p = Some sk" and
    mem: "memory s' = (memory s)(p \<mapsto> sk\<lparr>ReadCallback := cb, ReadCallbackState := st\<rparr>)" and
    lst: "asyncSocketList s' = (if ReadCallback sk = NULL then ?base @ [p] else ?base)"
    by blast
  from valid have
    entries: "\<And>q. q \<in> set (asyncSocketList s) \<Longrightarrow>
                 q \<noteq> NULL \<and> (\<exists>x. memory s q = Some x \<and> ReadCallback x \<noteq> NULL)" and
    dist: "distinct (asyncSocketList s)"
    by (auto simp: registrations_valid_def)
  have base: "set ?base \<subseteq> set (asyncSocketList s)" "distinct ?base"
    using dist by auto
  have fresh: "p \<notin> set ?base" if "ReadCallback sk = NULL"
  proof
    assume "p \<in> set ?base"
    with base have "p \<in> set (asyncSocketList s)" by blast
    from entries [OF this] sk that show False by simp
  qed
  have 1: "q \<noteq> NULL \<and> (\<exists>x. memory s' q = Some x \<and> ReadCallback x \<noteq> NULL)"
    if "q \<in> set (asyncSocketList s')" for q
  proof (cases "q = p")
    case True
    with pn nn show ?thesis by (simp add: mem)
  next
    case False
    with that have "q \<in> set ?base" by (simp add: lst split: if_splits)
    with base have "q \<in> set (asyncSocketList s)" by blast
    from entries [OF this] False show ?thesis by (simp add: mem)
  qed
  have 2: "distinct (asyncSocketList s')"
    using base fresh by (simp add: lst)
  from 1 2 show ?thesis
    by (simp add: registrations_valid_def)
qed

lemma Unset_valid:
  assumes valid: "registrations_valid s" and run: "SAL_Socket_UnsetSocketCallback s p = Inr s'"
  shows "registrations_valid s'"
proof -
  from Unset_Inr [OF run] obtain sk where
    sk: "memory s p = Some sk" and
    s': "if ReadCallback sk \<noteq> NULL
       then s' = s\<lparr>memory := (memory s)(p \<mapsto> sk\<lparr>ReadCallback := NULL, ReadCallbackState := NULL\<rparr>),
                   asyncSocketList := remove1 p (asyncSocketList s)\<rparr>
       else s' = s"
    by blast
  show ?thesis
  proof (cases "ReadCallback sk \<noteq> NULL")
    case False
    with s' valid show ?thesis by simp
  next
    case True
    with s' have eq: "s' = s\<lparr>memory := (memory s)(p \<mapsto> sk\<lparr>ReadCallback := NULL, ReadCallbackState := NULL\<rparr>),
                   asyncSocketList := remove1 p (asyncSocketList s)\<rparr>" by simp
    from valid have
      entries: "\<And>q. q \<in> set (asyncSocketList s) \<Longrightarrow>
                 q \<noteq> NULL \<and> (\<exists>x. memory s q = Some x \<and> ReadCallback x \<noteq> NULL)" and
      dist: "distinct (asyncSocketList s)"
      by (auto simp: registrations_valid_def)
    have 1: "q \<noteq> NULL \<and> (\<exists>x. memory s' q = Some x \<and> ReadCallback x \<noteq> NULL)"
      if "q \<in> set (asyncSocketList s')" for q
    proof -
      from that dist have "q \<in> set (asyncSocketList s)" and "q \<noteq> p"
        by (simp_all add: eq)
      with entries [of q] show ?thesis by (simp add: eq)
    qed
    have 2: "distinct (asyncSocketList s')"
      using dist by (simp add: eq)
    from 1 2 show ?thesis
      by (simp add: registrations_valid_def)
  qed
qed

lemma Close_valid:
  assumes valid: "registrations_valid s" and run: "SAL_Socket_Close s p = Inr s'"
  shows "registrations_valid s'"
proof -
  from Close_Inr [OF run] obtain s1 sk where
    u: "SAL_Socket_UnsetSocketCallback s p = Inr s1" and
    s': "s' = s1\<lparr>memory := (memory s1)(p \<mapsto> sk\<lparr>Connected := False, RawSocket := INVALID_SOCKET\<rparr>)\<rparr>"
    by blast
  from Unset_valid [OF valid u] have valid1: "registrations_valid s1" .
  from Unset_valid_not_registered [OF valid u] have "p \<notin> set (asyncSocketList s1)" .
  with valid1 show ?thesis
    by (auto simp: registrations_valid_def s')
qed

lemma api_step_valid:
  assumes valid: "registrations_valid s" and step: "api_step s c = Inr s'"
  shows "registrations_valid s'"
proof (cases c)
  case (Call_SetReadCallback p cb st)
  with step valid show ?thesis by (auto intro: Set_valid)
next
  case (Call_UnsetSocketCallback p)
  with step valid show ?thesis by (auto intro: Unset_valid)
next
  case (Call_Close p)
  with step valid show ?thesis by (auto intro: Close_valid)
next
  case Call_ClearCallbacks
  with step show ?thesis
    by (auto simp: registrations_valid_def SAL_Socket_ClearCallbacks_def
          SAL_Socket_CallbackWorker_Shutdown_def AsyncLinkedList_Uninitialize_def)
next
  case (Call_WorkerCycle env)
  with step obtain readSet ds where
    "SAL_Socket_CallbackWorker_cycle env s = Inr (readSet, ds, s')"
    by (auto split: sum.splits)
  from cycle_memory [OF this] valid show ?thesis
    by (simp add: registrations_valid_def)
qed

text \<open>
  Every state that calls and worker cycles reach from the program's start has valid
  registrations.
\<close>

lemma api_run_valid:
  assumes "registrations_valid s" and "api_run s cs = Inr s'"
  shows "registrations_valid s'"
  using assms
proof (induction cs arbitrary: s)
  case Nil
  then show ?case by simp
next
  case (Cons c cs)
  from Cons.prems(2) obtain s1 where
    step: "api_step s c = Inr s1" and rest: "api_run s1 cs = Inr s'"
    by (auto split: sum.splits)
  from Cons.IH [OF api_step_valid [OF Cons.prems(1) step] rest] show ?case .
qed

section \<open>From connect or accept to close\<close>

text \<open>
  C8. A SAL\_Socket\_Close that returns has run SAL\_Socket\_UnsetSocketCallback on the
  socket and then set Connected to false (and the handle to INVALID\_SOCKET): afterwards
  the socket has no callback and, in a state with valid registrations, is not in the
  list. When the platform's \<open>accept\<close> returns a valid handle, SAL\_Socket\_Accept returns
  the newly allocated socket, which holds that handle, is Connected and has no callback;
  so does SAL\_Socket\_ConnectIP when \<open>socket\<close> returns a valid handle and \<open>connect\<close>
  succeeds; when they fail they return null and leave the state alone. A Connected
  socket stays so through every sequence of calls (set, unset, close of other sockets,
  clear, worker cycles) that does not close it.
\<close>

theorem Close_unregisters_and_disconnects:
  "(\<forall>s p s'. SAL_Socket_Close s p = Inr s' \<longrightarrow>
      (\<exists>s1 sk. SAL_Socket_UnsetSocketCallback s p = Inr s1 \<and> memory s1 p = Some sk \<and>
         s' = s1\<lparr>memory := (memory s1)(p \<mapsto> sk\<lparr>Connected := False, RawSocket := INVALID_SOCKET\<rparr>)\<rparr>) \<and>
      (\<exists>sk'. memory s' p = Some sk' \<and> \<not> Connected sk' \<and> ReadCallback sk' = NULL) \<and>
      (registrations_valid s \<longrightarrow> p \<notin> set (asyncSocketList s'))) \<and>
   (\<forall>accept new s listener l.
      memory s listener = Some l \<longrightarrow>
      SAL_Socket_Accept accept new s listener =
        (if accept (RawSocket l) \<noteq> INVALID_SOCKET
         then Inr (new, s\<lparr>memory := (memory s)(new \<mapsto>
                \<lparr>RawSocket = accept (RawSocket l), Connected = True, LastError = 0,
                 ReadCallback = NULL, ReadCallbackState = NULL\<rparr>)\<rparr>)
         else Inr (NULL, s))) \<and>
   (\<forall>rawServer connect_error new s.
      SAL_Socket_ConnectIP rawServer connect_error new s =
        (if rawServer \<noteq> INVALID_SOCKET \<and> \<not> connect_error
         then (new, s\<lparr>memory := (memory s)(new \<mapsto>
                \<lparr>RawSocket = rawServer, Connected = True, LastError = 0,
                 ReadCallback = NULL, ReadCallbackState = NULL\<rparr>)\<rparr>)
         else (NULL, s))) \<and>
   (\<forall>accept new s listener p s'.
      SAL_Socket_Accept accept new s listener = Inr (p, s') \<longrightarrow> p \<noteq> NULL \<longrightarrow>
      (\<exists>sk. memory s' p = Some sk \<and> Connected sk)) \<and>
   (\<forall>rawServer connect_error new s p s'.
      SAL_Socket_ConnectIP rawServer connect_error new s = (p, s') \<longrightarrow> p \<noteq> NULL \<longrightarrow>
      (\<exists>sk. memory s' p = Some sk \<and> Connected sk)) \<and>
   (\<forall>s cs s' p sk.
      api_run s cs = Inr s' \<longrightarrow> Call_Close p \<notin> set cs \<longrightarrow>
      memory s p = Some sk \<longrightarrow> Connected sk \<longrightarrow>
      (\<exists>sk'. memory s' p = Some sk' \<and> Connected sk'))"
proof -
  have close: "(\<exists>s1 sk. SAL_Socket_UnsetSocketCallback s p = Inr s1 \<and> memory s1 p = Some sk \<and>
         s' = s1\<lparr>memory := (memory s1)(p \<mapsto> sk\<lparr>Connected := False, RawSocket := INVALID_SOCKET\<rparr>)\<rparr>) \<and>
      (\<exists>sk'. memory s' p = Some sk' \<and> \<not> Connected sk' \<and> ReadCallback sk' = NULL) \<and>
      (registrations_valid s \<longrightarrow> p \<notin> set (asyncSocketList s'))"
    if c: "SAL_Socket_Close s p = Inr s'" for s p s'
  proof -
    from Close_Inr [OF c] obtain s1 sk where
      u: "SAL_Socket_UnsetSocketCallback s p = Inr s1" and sk: "memory s1 p = Some sk" and
      s': "s' = s1\<lparr>memory := (memory s1)(p \<mapsto> sk\<lparr>Connected := False, RawSocket := INVALID_SOCKET\<rparr>)\<rparr>"
      by blast
    from Unset_clears [OF u] sk have "ReadCallback sk = NULL" by simp
    with s' have 2: "\<exists>sk'. memory s' p = Some sk' \<and> \<not> Connected sk' \<and> ReadCallback sk' = NULL"
      by simp
    have 3: "registrations_valid s \<longrightarrow> p \<notin> set (asyncSocketList s')"
      using Unset_valid_not_registered [OF _ u] s' by simp
    from u sk s' 2 3 show ?thesis by blast
  qed
  have accept_does: "SAL_Socket_Accept accept new s listener =
        (if accept (RawSocket l) \<noteq> INVALID_SOCKET
         then Inr (new, s\<lparr>memory := (memory s)(new \<mapsto>
                \<lparr>RawSocket = accept (RawSocket l), Connected = True, LastError = 0,
                 ReadCallback = NULL, ReadCallbackState = NULL\<rparr>)\<rparr>)
         else Inr (NULL, s))"
    if "memory s listener = Some l" for accept new s listener l
    using that by (simp add: SAL_Socket_Accept_def SAL_Socket_Init_def Let_def)
  have connect_does: "SAL_Socket_ConnectIP rawServer connect_error new s =
        (if rawServer \<noteq> INVALID_SOCKET \<and> \<not> connect_error
         then (new, s\<lparr>memory := (memory s)(new \<mapsto>
                \<lparr>RawSocket = rawServer, Connected = True, LastError = 0,
                 ReadCallback = NULL, ReadCallbackState = NULL\<rparr>)\<rparr>)
         else (NULL, s))"
    for rawServer connect_error new s
    by (simp add: SAL_Socket_ConnectIP_def SAL_Socket_Init_def)
  have accept: "\<exists>sk. memory s' p = Some sk \<and> Connected sk"
    if "SAL_Socket_Accept accept new s listener = Inr (p, s')" and "p \<noteq> NULL"
    for accept new s listener p s'
    using that
    by (auto simp: SAL_Socket_Accept_def Let_def split: option.splits if_splits)
  have connect: "\<exists>sk. memory s' p = Some sk \<and> Connected sk"
    if "SAL_Socket_ConnectIP rawServer connect_error new s = (p, s')" and "p \<noteq> NULL"
    for rawServer connect_error new s p s'
    using that
    by (auto simp: SAL_Socket_ConnectIP_def split: if_splits)
  show ?thesis
  proof (intro conjI allI impI)
    fix s p s'
    assume c: "SAL_Socket_Close s p = Inr s'"
    from close [OF c] show "\<exists>s1 sk. SAL_Socket_UnsetSocketCallback s p = Inr s1 \<and> memory s1 p = Some sk \<and>
         s' = s1\<lparr>memory := (memory s1)(p \<mapsto> sk\<lparr>Connected := False, RawSocket := INVALID_SOCKET\<rparr>)\<rparr>"
      by (rule conjunct1)
    from close [OF c] show "\<exists>sk'. memory s' p = Some sk' \<and> \<not> Connected sk' \<and> ReadCallback sk' = NULL"
      by (rule conjunct1 [OF conjunct2])
    assume "registrations_valid s"
    with close [OF c] show "p \<notin> set (asyncSocketList s')"
      by blast
  next
    fix accept :: "SOCKET \<Rightarrow> SOCKET" and new :: ptr and s :: engine
      and listener :: ptr and l :: SAL_Socket
    assume "memory s listener = Some l"
    then show "SAL_Socket_Accept accept new s listener =
        (if accept (RawSocket l) \<noteq> INVALID_SOCKET
         then Inr (new, s\<lparr>memory := (memory s)(new \<mapsto>
                \<lparr>RawSocket = accept (RawSocket l), Connected = True, LastError = 0,
                 ReadCallback = NULL, ReadCallbackState = NULL\<rparr>)\<rparr>)
         else Inr (NULL, s))"
      by (rule accept_does)
  next
    fix rawServer connect_error new s
    show "SAL_Socket_ConnectIP rawServer connect_error new s =
        (if rawServer \<noteq> INVALID_SOCKET \<and> \<not> connect_error
         then (new, s\<lparr>memory := (memory s)(new \<mapsto>
                \<lparr>RawSocket = rawServer, Connected = True, LastError = 0,
                 ReadCallback = NULL, ReadCallbackState = NULL\<rparr>)\<rparr>)
         else (NULL, s))"
      by (rule connect_does)
  next
    fix accept new s listener p s'
    assume "SAL_Socket_Accept accept new s listener = Inr (p, s')" and "p \<noteq> NULL"
    then show "\<exists>sk. memory s' p = Some sk \<and> Connected sk"
      by (rule accept)
  next
    fix rawServer connect_error new s p s'
    assume "SAL_Socket_ConnectIP rawServer connect_error new s = (p, s')" and "p \<noteq> NULL"
    then show "\<exists>sk. memory s' p = Some sk \<and> Connected sk"
      by (rule connect)
  next
    fix s cs s' p sk
    assume "api_run s cs = Inr s'" and "Call_Close p \<notin> set cs"
      and "memory s p = Some sk" and "Connected sk"
    then show "\<exists>sk'. memory s' p = Some sk' \<and> Connected sk'"
      by (rule api_run_Connected)
  qed
qed

lemma ex_life_ok:
  "\<not> isl (api_run ex_accepted ex_life) \<and>
   \<not> isl (SAL_Socket_Close (projr (api_run ex_accepted ex_life)) 3)"
  by (simp add: ex_life_def ex_accepted_def ex_start_def ex_memory_def SAL_Socket_Init_def
        SAL_Socket_SetReadCallback_def SAL_Socket_UnsetSocketCallback_def SAL_Socket_Close_def
        SAL_Socket_ClearCallbacks_def SAL_Socket_CallbackWorker_Shutdown_def
        SAL_Socket_CallbackWorker_Initialize_def AsyncLinkedList_Initialize_def
        AsyncLinkedList_Append_def AsyncLinkedList_Remove_def AsyncLinkedList_Uninitialize_def
        SAL_Thread_Create_def SAL_Thread_Join_def AsyncLinkedList_BeginIterate_def Let_def
        SAL_Socket_CallbackWorker_cycle_def ex_platform_def batch_loop.simps
        AsyncLinkedList_IterateNext_def AsyncLinkedList_ResetIterator_def FD_SETSIZE_def
        FD_SET_def SAL_Socket_Read_def asyncSocketBuffer_def)

lemma ex_accepted_valid: "registrations_valid ex_accepted"
  by (simp add: registrations_valid_def ex_accepted_def ex_start_def)

theorem Close_unregisters_and_disconnects_witness:
  "SAL_Socket_Accept (\<lambda>h. 11) 3 ex_start 1 = Inr (3, ex_accepted) \<and>
   SAL_Socket_ConnectIP 12 False 4 ex_start = (4, ex_connected) \<and>
   SAL_Socket_ConnectIP 12 True 4 ex_start = (NULL, ex_start) \<and>
   map_option Connected (memory ex_accepted 3) = Some True \<and>
   Call_Close 3 \<notin> set ex_life \<and>
   \<not> isl (api_run ex_accepted ex_life) \<and>
   (\<exists>sk. memory (projr (api_run ex_accepted ex_life)) 3 = Some sk \<and> Connected sk) \<and>
   \<not> isl (SAL_Socket_Close (projr (api_run ex_accepted ex_life)) 3) \<and>
   (\<exists>sk. memory (projr (SAL_Socket_Close (projr (api_run ex_accepted ex_life)) 3)) 3 = Some sk \<and>
      \<not> Connected sk \<and> ReadCallback sk = NULL) \<and>
   3 \<notin> set (asyncSocketList (projr (SAL_Socket_Close (projr (api_run ex_accepted ex_life)) 3)))"
proof -
  note cud = Close_unregisters_and_disconnects
  let ?lived = "projr (api_run ex_accepted ex_life)"
  let ?closed = "projr (SAL_Socket_Close ?lived 3)"
  have listener: "memory ex_start 1 = Some (SAL_Socket_Init\<lparr>RawSocket := 7, Connected := True\<rparr>)"
    by (simp add: ex_start_def ex_memory_def)
  from cud [THEN conjunct2, THEN conjunct1, rule_format, OF listener, of "\<lambda>h. 11" 3]
  have accepted: "SAL_Socket_Accept (\<lambda>h. 11) 3 ex_start 1 = Inr (3, ex_accepted)"
    by (simp add: ex_accepted_def INVALID_SOCKET_def)
  from cud [THEN conjunct2, THEN conjunct2, THEN conjunct1, rule_format, of 12 False 4 ex_start]
  have connected: "SAL_Socket_ConnectIP 12 False 4 ex_start = (4, ex_connected)"
    by (simp add: ex_connected_def INVALID_SOCKET_def)
  from cud [THEN conjunct2, THEN conjunct2, THEN conjunct1, rule_format, of 12 True 4 ex_start]
  have refused: "SAL_Socket_ConnectIP 12 True 4 ex_start = (NULL, ex_start)"
    by simp
  have born: "memory ex_accepted 3 =
      Some \<lparr>RawSocket = 11, Connected = True, LastError = 0,
            ReadCallback = NULL, ReadCallbackState = NULL\<rparr>"
    by (simp add: ex_accepted_def)
  have no_close: "Call_Close 3 \<notin> set ex_life"
    by (simp add: ex_life_def)
  have life: "api_run ex_accepted ex_life = Inr ?lived"
    using ex_life_ok by simp
  have close: "SAL_Socket_Close ?lived 3 = Inr ?closed"
    using ex_life_ok by simp
  from cud [THEN conjunct2, THEN conjunct2, THEN conjunct2, THEN conjunct2, THEN conjunct2,
      rule_format, OF life no_close born]
  have alive: "\<exists>sk. memory ?lived 3 = Some sk \<and> Connected sk"
    by simp
  from api_run_valid [OF ex_accepted_valid life] have valid: "registrations_valid ?lived" .
  from cud [THEN conjunct1, rule_format, OF close]
  have dead: "\<exists>sk. memory ?closed 3 = Some sk \<and> \<not> Connected sk \<and> ReadCallback sk = NULL"
    and gone: "registrations_valid ?lived \<longrightarrow> 3 \<notin> set (asyncSocketList ?closed)"
    by blast+
  from gone valid have gone': "3 \<notin> set (asyncSocketList ?closed)" by simp
  from accepted connected refused born no_close ex_life_ok alive dead gone' show ?thesis
    by simp
qed

section \<open>Shutting down and starting again\<close>

text \<open>
  After a shutdown, registering a socket that has no callback restarts the worker and
  registers the socket.
\<close>

lemma restart_registers_fresh_socket:
  assumes "p \<noteq> NULL" and "cb \<noteq> NULL" and "st \<noteq> NULL"
    and "memory s p = Some sk" and "ReadCallback sk = NULL"
  shows "\<exists>s'. SAL_Socket_SetReadCallback (SAL_Socket_ClearCallbacks s) p cb st = Inr s' \<and>
           asyncSocketList s' = [p] \<and> asyncWorkerRunning s' \<and> asyncWorker s' = Started \<and>
           selectIterator s' = 0 \<and>
           memory s' p = Some (sk\<lparr>ReadCallback := cb, ReadCallbackState := st\<rparr>)"
  using assms
  by (simp add: SAL_Socket_SetReadCallback_def SAL_Socket_ClearCallbacks_def
        SAL_Socket_CallbackWorker_Shutdown_def SAL_Socket_CallbackWorker_Initialize_def
        AsyncLinkedList_Initialize_def AsyncLinkedList_Append_def SAL_Thread_Create_def
        AsyncLinkedList_BeginIterate_def Let_def)

text \<open>
  C7 (the code at the failing input). From the program's start: register socket 1, clear
  all callbacks, register socket 1 again. The second registration restarts the worker
  (running, a started thread, an initialised list), but socket 1 still carries the
  callback of the first registration, so the guard on ReadCallback skips the append:
  the list stays empty, and a worker cycle queries no handle and calls nothing.
\<close>

theorem restart_skips_socket_registered_before:
  "\<not> isl (api_run ex_start ex_restart) \<and>
   asyncWorkerRunning (projr (api_run ex_start ex_restart)) \<and>
   asyncWorker (projr (api_run ex_start ex_restart)) = Started \<and>
   map_option ReadCallback (memory (projr (api_run ex_start ex_restart)) 1) = Some 8 \<and>
   asyncSocketList (projr (api_run ex_start ex_restart)) = [] \<and>
   SAL_Socket_CallbackWorker_cycle (ex_platform 5) (projr (api_run ex_start ex_restart)) =
     Inr ([], [], projr (api_run ex_start ex_restart))"
  by (simp add: ex_restart_def SAL_Socket_SetReadCallback_def SAL_Socket_ClearCallbacks_def
        SAL_Socket_CallbackWorker_Shutdown_def SAL_Socket_CallbackWorker_Initialize_def
        AsyncLinkedList_Initialize_def AsyncLinkedList_Append_def SAL_Thread_Create_def
        AsyncLinkedList_BeginIterate_def AsyncLinkedList_Uninitialize_def SAL_Thread_Join_def
        ex_start_def ex_memory_def SAL_Socket_Init_def Let_def
        SAL_Socket_CallbackWorker_cycle_def ex_platform_def
        batch_loop.simps AsyncLinkedList_IterateNext_def AsyncLinkedList_ResetIterator_def
        FD_SETSIZE_def)

end
